theory Spec2Isabelle
  imports Main
begin

section \<open>Terminals and the primitive grammar\<close>

text \<open>
  A terminal key is a branded string (\<^verbatim>\<open>brandLiteral\<close>, \<^verbatim>\<open>brandType\<close>, \<^verbatim>\<open>brandEof\<close> of
  \<^verbatim>\<open>visibly-pushdown.mjs\<close>): a literal's text between double quotes, a token type between
  angle brackets, or the end-of-input marker. A rule identifier is a JavaScript symbol; only
  its identity is used, so it is a natural number here.
\<close>

type_synonym terminal = string
type_synonym symbol = nat

definition brandLiteral :: "string \<Rightarrow> terminal" where
  "brandLiteral v = CHR 0x22 # v @ [CHR 0x22]"

definition brandType :: "string \<Rightarrow> terminal" where
  "brandType t = ''<'' @ t @ ''>''"

definition brandEof :: terminal where
  "brandEof = ''(end of input)''"

text \<open>
  Reducer functions. The four named ones are the constants \<^verbatim>\<open>_2\<close>, \<^verbatim>\<open>cons\<close> and the
  functions inside \<^verbatim>\<open>pushNull\<close> and \<^verbatim>\<open>pushArr\<close>; a user-supplied reducer is an opaque host
  function, identified by a number.
\<close>

datatype seqfn = Proj2 | ConsFn | PushNullFn | PushArrFn | UserFn nat

datatype simple_ast =
    Literal string
  | Identifier
  | Value
  | Nonterminal symbol
  | Repeat0 simple_ast
  | Seq "simple_ast list"
  | Alt "simple_ast list"
  | Reduce nat "seqfn option"

datatype grammar_error =
    LeftRecursion symbol
  | EpsilonRepeat
  | FirstFollowConflict terminal
  | FirstFirstConflict terminal
  | UndefinedRule
  | NodeError string
  | UnknownIdentifier string
  | EmptyRuleset

text \<open>
  The rule table is a JavaScript \<^verbatim>\<open>Map\<close> from symbols to nodes: an association list in
  insertion order. \<^verbatim>\<open>mapSet\<close> is \<^verbatim>\<open>Map.prototype.set\<close>: an existing key keeps its place.
\<close>

type_synonym rule_table = "(symbol \<times> simple_ast) list"

fun mapSet :: "'k \<Rightarrow> 'v \<Rightarrow> ('k \<times> 'v) list \<Rightarrow> ('k \<times> 'v) list" where
  "mapSet k v [] = [(k, v)]"
| "mapSet k v ((k', v') # m) = (if k' = k then (k, v) # m else (k', v') # mapSet k v m)"

text \<open>
  A JavaScript \<^verbatim>\<open>Set\<close> is a list without repetition in insertion order: \<^verbatim>\<open>setAdd\<close> is
  \<^verbatim>\<open>add\<close>, \<^verbatim>\<open>setDelete\<close> is \<^verbatim>\<open>delete\<close>, \<^verbatim>\<open>newSet\<close> is \<^verbatim>\<open>new Set(iterable)\<close> (the first
  occurrence of each element is kept).
\<close>

definition setAdd :: "'a list \<Rightarrow> 'a \<Rightarrow> 'a list" where
  "setAdd s x = (if x \<in> set s then s else s @ [x])"

definition setDelete :: "'a \<Rightarrow> 'a list \<Rightarrow> 'a list" where
  "setDelete x s = removeAll x s"

definition newSet :: "'a list \<Rightarrow> 'a list" where
  "newSet xs = rev (remdups (rev xs))"

section \<open>The first-set analyzer (\<^verbatim>\<open>FirstSetBuilder\<close>)\<close>

text \<open>
  The cache maps a node to its first-set. The source keys it by the node object; here it is
  keyed by the node's value. The builder's state is the cache, passed in and returned.
  A thrown \<^verbatim>\<open>Error\<close> is the left summand of the result. A rule missing from the table makes
  \<^verbatim>\<open>getInner\<close> read \<^verbatim>\<open>node.type\<close> of \<^verbatim>\<open>undefined\<close>, which throws: \<^verbatim>\<open>UndefinedRule\<close>.
\<close>

type_synonym cache = "simple_ast \<rightharpoonup> terminal list"

text \<open>
  The inner loop of the \<^verbatim>\<open>seq\<close> and \<^verbatim>\<open>alt\<close> cases: every terminal of a child's first-set
  is added to the accumulated set, and one that is already there is a conflict.
\<close>

fun addAll :: "(terminal \<Rightarrow> grammar_error) \<Rightarrow> terminal list \<Rightarrow> terminal list
    \<Rightarrow> grammar_error + terminal list" where
  "addAll conflict [] acc = Inr acc"
| "addAll conflict (t # ts) acc =
     (if t \<in> set acc then Inl (conflict t) else addAll conflict ts (setAdd acc t))"

function (sequential)
    get :: "rule_table \<Rightarrow> cache \<Rightarrow> simple_ast \<Rightarrow> symbol list
      \<Rightarrow> (grammar_error + terminal list) \<times> cache"
and getInner :: "rule_table \<Rightarrow> cache \<Rightarrow> simple_ast \<Rightarrow> symbol list
      \<Rightarrow> (grammar_error + terminal list) \<times> cache"
and seqLoop :: "rule_table \<Rightarrow> cache \<Rightarrow> simple_ast list \<Rightarrow> terminal list \<Rightarrow> symbol list
      \<Rightarrow> (grammar_error + terminal list) \<times> cache"
and altLoop :: "rule_table \<Rightarrow> cache \<Rightarrow> simple_ast list \<Rightarrow> terminal list \<Rightarrow> symbol list
      \<Rightarrow> (grammar_error + terminal list) \<times> cache"
where
  "get R c node recurSet =
     (case c node of
        Some s \<Rightarrow> (Inr s, c)
      | None \<Rightarrow>
          (case getInner R c node recurSet of
             (Inl err, c') \<Rightarrow> (Inl err, c')
           | (Inr res, c') \<Rightarrow> (Inr res, c'(node \<mapsto> res))))"
| "getInner R c (Reduce arity fn) recurSet = (Inr [brandEof], c)"
| "getInner R c (Literal v) recurSet = (Inr [brandLiteral v], c)"
| "getInner R c Identifier recurSet = (Inr [brandType ''identifier''], c)"
| "getInner R c Value recurSet = (Inr [brandType ''value''], c)"
| "getInner R c (Nonterminal v) recurSet =
     (if v \<in> set recurSet then (Inl (LeftRecursion v), c)
      else (case map_of R v of
              None \<Rightarrow> (Inl UndefinedRule, c)
            | Some next \<Rightarrow> get R c next (newSet (recurSet @ [v]))))"
| "getInner R c (Repeat0 e) recurSet =
     (case get R c e recurSet of
        (Inl err, c') \<Rightarrow> (Inl err, c')
      | (Inr innerSet, c') \<Rightarrow>
          if brandEof \<in> set innerSet then (Inl EpsilonRepeat, c')
          else (Inr (newSet (innerSet @ [brandEof])), c'))"
| "getInner R c (Seq es) recurSet = seqLoop R c es [brandEof] recurSet"
| "getInner R c (Alt es) recurSet = altLoop R c es [] recurSet"
| "seqLoop R c [] acc recurSet = (Inr acc, c)"
| "seqLoop R c (e # es) acc recurSet =
     (case get R c e recurSet of
        (Inl err, c') \<Rightarrow> (Inl err, c')
      | (Inr s, c') \<Rightarrow>
          (case addAll FirstFollowConflict s (setDelete brandEof acc) of
             Inl err \<Rightarrow> (Inl err, c')
           | Inr acc' \<Rightarrow>
               if brandEof \<notin> set acc' then (Inr acc', c')
               else seqLoop R c' es acc' recurSet))"
| "altLoop R c [] acc recurSet = (Inr acc, c)"
| "altLoop R c (e # es) acc recurSet =
     (case get R c e recurSet of
        (Inl err, c') \<Rightarrow> (Inl err, c')
      | (Inr s, c') \<Rightarrow>
          (case addAll FirstFirstConflict s acc of
             Inl err \<Rightarrow> (Inl err, c')
           | Inr acc' \<Rightarrow> altLoop R c' es acc' recurSet))"
  by pat_completeness auto

text \<open>
  The analysis terminates on every rule table: a rule reference either raises or adds a
  rule of the table to \<^verbatim>\<open>recurSet\<close>, and everything else descends into the node.
\<close>

termination
  apply (relation "inv_image (less_than <*lex*> less_than <*lex*> less_than)
     (\<lambda>x. case x of
        Inl (Inl (R, c, n, rs)) \<Rightarrow> (card (fst ` set R - set rs), size n, 1::nat)
      | Inl (Inr (R, c, n, rs)) \<Rightarrow> (card (fst ` set R - set rs), size n, 0)
      | Inr (Inl (R, c, es, acc, rs)) \<Rightarrow> (card (fst ` set R - set rs), size_list size es, 0)
      | Inr (Inr (R, c, es, acc, rs)) \<Rightarrow> (card (fst ` set R - set rs), size_list size es, 0))")
  subgoal by (intro wf_inv_image wf_lex_prod wf_less_than)
  apply (simp_all add: newSet_def)
  subgoal premises prems for R v rs b
  proof -
    have "v \<in> fst ` set R"
      using prems(2) by (force dest: map_of_SomeD)
    then have "fst ` set R - insert v (set rs) \<subset> fst ` set R - set rs"
      using prems(1) by blast
    then show ?thesis
      by (simp add: psubset_card_mono)
  qed
  done

declare get.simps [simp del]

section \<open>The parser compiler (\<^verbatim>\<open>ParserCompiler\<close>)\<close>

text \<open>
  A compiled matcher. \<^verbatim>\<open>MatchRule\<close> holds the rule's symbol; the shared table of compiled
  rules it reads at parse time is an argument of the runtime. The dispatch table of \<^verbatim>\<open>Alt\<close>
  is a \<^verbatim>\<open>Map\<close> in insertion order.
\<close>

datatype parser =
    MatchType string
  | MatchLiteral string
  | MatchRule symbol
  | SeqP "parser list"
  | ReduceP nat "seqfn option"
  | AltP "(terminal \<times> parser) list"
  | RepeatP parser "terminal list"

function (sequential)
    compile :: "rule_table \<Rightarrow> cache \<Rightarrow> simple_ast \<Rightarrow> (grammar_error + parser) \<times> cache"
and compileList :: "rule_table \<Rightarrow> cache \<Rightarrow> simple_ast list
      \<Rightarrow> (grammar_error + parser list) \<times> cache"
and compileAlt :: "rule_table \<Rightarrow> cache \<Rightarrow> simple_ast list \<Rightarrow> (terminal \<times> parser) list
      \<Rightarrow> (grammar_error + (terminal \<times> parser) list) \<times> cache"
and compileTerminals :: "rule_table \<Rightarrow> cache \<Rightarrow> simple_ast \<Rightarrow> terminal list
      \<Rightarrow> (terminal \<times> parser) list \<Rightarrow> (grammar_error + (terminal \<times> parser) list) \<times> cache"
where
  "compile R c (Reduce arity fn) = (Inr (ReduceP arity fn), c)"
| "compile R c (Literal v) = (Inr (MatchLiteral v), c)"
| "compile R c Identifier = (Inr (MatchType ''identifier''), c)"
| "compile R c Value = (Inr (MatchType ''value''), c)"
| "compile R c (Nonterminal v) = (Inr (MatchRule v), c)"
| "compile R c (Repeat0 e) =
     (case get R c (Repeat0 e) [] of
        (Inl err, c1) \<Rightarrow> (Inl err, c1)
      | (Inr _, c1) \<Rightarrow>
          (case compile R c1 e of
             (Inl err, c2) \<Rightarrow> (Inl err, c2)
           | (Inr p, c2) \<Rightarrow>
               (case get R c2 e [] of
                  (Inl err, c3) \<Rightarrow> (Inl err, c3)
                | (Inr s, c3) \<Rightarrow> (Inr (RepeatP p (newSet s)), c3))))"
| "compile R c (Seq es) =
     (case get R c (Seq es) [] of
        (Inl err, c1) \<Rightarrow> (Inl err, c1)
      | (Inr _, c1) \<Rightarrow>
          (case compileList R c1 es of
             (Inl err, c2) \<Rightarrow> (Inl err, c2)
           | (Inr ps, c2) \<Rightarrow> (Inr (SeqP ps), c2)))"
| "compile R c (Alt es) =
     (case get R c (Alt es) [] of
        (Inl err, c1) \<Rightarrow> (Inl err, c1)
      | (Inr _, c1) \<Rightarrow>
          (case compileAlt R c1 es [] of
             (Inl err, c2) \<Rightarrow> (Inl err, c2)
           | (Inr parserMap, c2) \<Rightarrow> (Inr (AltP parserMap), c2)))"
| "compileList R c [] = (Inr [], c)"
| "compileList R c (e # es) =
     (case compile R c e of
        (Inl err, c1) \<Rightarrow> (Inl err, c1)
      | (Inr p, c1) \<Rightarrow>
          (case compileList R c1 es of
             (Inl err, c2) \<Rightarrow> (Inl err, c2)
           | (Inr ps, c2) \<Rightarrow> (Inr (p # ps), c2)))"
| "compileAlt R c [] parserMap = (Inr parserMap, c)"
| "compileAlt R c (e # es) parserMap =
     (case get R c e [] of
        (Inl err, c1) \<Rightarrow> (Inl err, c1)
      | (Inr s, c1) \<Rightarrow>
          (case compileTerminals R c1 e s parserMap of
             (Inl err, c2) \<Rightarrow> (Inl err, c2)
           | (Inr parserMap', c2) \<Rightarrow> compileAlt R c2 es parserMap'))"
| "compileTerminals R c e [] parserMap = (Inr parserMap, c)"
| "compileTerminals R c e (t # ts) parserMap =
     (case compile R c e of
        (Inl err, c1) \<Rightarrow> (Inl err, c1)
      | (Inr p, c1) \<Rightarrow> compileTerminals R c1 e ts (mapSet t p parserMap))"
  by pat_completeness auto

termination
  apply (relation "inv_image (less_than <*lex*> less_than <*lex*> less_than)
     (\<lambda>x. case x of
        Inl (Inl (R, c, n)) \<Rightarrow> (size n, 0::nat, 0::nat)
      | Inl (Inr (R, c, es)) \<Rightarrow> (size_list size es, 0, 0)
      | Inr (Inl (R, c, es, pm)) \<Rightarrow> (size_list size es, 0, 0)
      | Inr (Inr (R, c, e, ts, pm)) \<Rightarrow> (size e, 1, length ts))")
  subgoal by (intro wf_inv_image wf_lex_prod wf_less_than)
  apply simp_all
  done

text \<open>
  \<^verbatim>\<open>compileRuleset\<close> compiles the rules in the table's order with one \<^verbatim>\<open>FirstSetBuilder\<close>,
  whose cache starts empty.
\<close>

fun compileRules :: "rule_table \<Rightarrow> cache \<Rightarrow> (symbol \<times> simple_ast) list
    \<Rightarrow> (symbol \<times> parser) list \<Rightarrow> (grammar_error + (symbol \<times> parser) list) \<times> cache" where
  "compileRules R c [] compiledRules = (Inr compiledRules, c)"
| "compileRules R c ((name, node) # rest) compiledRules =
     (case compile R c node of
        (Inl err, c') \<Rightarrow> (Inl err, c')
      | (Inr p, c') \<Rightarrow> compileRules R c' rest (mapSet name p compiledRules))"

definition compileRuleset :: "rule_table \<Rightarrow> grammar_error + (symbol \<times> parser) list" where
  "compileRuleset ruleASTMap = fst (compileRules ruleASTMap Map.empty ruleASTMap [])"


section \<open>Tokens and host values\<close>

text \<open>
  A JavaScript value, as far as the program looks into it. A number is kept as the text it
  was read from (the source applies \<^verbatim>\<open>Number\<close> to it); functions, parsers and other host
  objects are opaque and identified by a number.
\<close>

datatype jsval =
    JUndefined
  | JNull
  | JString string
  | JNumber string
  | JArray "jsval list"
  | JHost nat

text \<open>
  A token is its content (\<^verbatim>\<open>type\<close>, \<^verbatim>\<open>value\<close>) and its position (\<^verbatim>\<open>index\<close>, \<^verbatim>\<open>outerIndex\<close>,
  \<^verbatim>\<open>length\<close>).
\<close>

record token =
  tokType :: string
  tokValue :: jsval
  tokIndex :: nat
  tokOuterIndex :: nat
  tokLength :: nat

text \<open>
  \<^verbatim>\<open>brandToken\<close> reads the text of a token that is neither an identifier nor a value; its
  TypeScript type makes that value a string.
\<close>

definition tokText :: "token \<Rightarrow> string" where
  "tokText t = (case tokValue t of JString s \<Rightarrow> s | _ \<Rightarrow> [])"

definition brandToken :: "token option \<Rightarrow> terminal" where
  "brandToken tok =
     (case tok of
        None \<Rightarrow> brandEof
      | Some t \<Rightarrow>
          if tokType t = ''identifier'' \<or> tokType t = ''value'' then brandType (tokType t)
          else brandLiteral (tokText t))"

section \<open>The parser runtime\<close>

text \<open>
  A \<^verbatim>\<open>ParseError\<close> carries its message and its \<^verbatim>\<open>_stack\<close> of frames. Anything else that
  is thrown during a parse is a \<^verbatim>\<open>TypeError\<close> of the runtime itself (a rule without a compiled
  matcher, the spread of a value that is not iterable) or a value thrown by a host reducer.
\<close>

datatype frame = TokenFrame token | RuleFrame symbol

datatype parse_error =
    ParseError string "frame list"
  | JSTypeError
  | Thrown jsval

definition matchError :: "string \<Rightarrow> token option \<Rightarrow> parse_error" where
  "matchError expected received =
     ParseError (''Expected '' @ expected @ '', received '' @ brandToken received)
       (case received of None \<Rightarrow> [] | Some t \<Rightarrow> [TokenFrame t])"

record parse_state =
  psTokens :: "token list"
  psIndex :: nat
  psResults :: "jsval list"

definition initState :: "token list \<Rightarrow> parse_state" where
  "initState toks = \<lparr>psTokens = toks, psIndex = 0, psResults = []\<rparr>"

definition peek :: "parse_state \<Rightarrow> token option" where
  "peek st = (if psIndex st < length (psTokens st) then Some (psTokens st ! psIndex st) else None)"

definition nextToken :: "parse_state \<Rightarrow> token option \<times> parse_state" where
  "nextToken st = (peek st, st\<lparr>psIndex := psIndex st + 1\<rparr>)"

definition push :: "jsval \<Rightarrow> parse_state \<Rightarrow> parse_state" where
  "push x st = st\<lparr>psResults := psResults st @ [x]\<rparr>"

text \<open>
  \<^verbatim>\<open>reduce\<close> pops \<^verbatim>\<open>arity\<close> values (popping an empty array gives \<^verbatim>\<open>undefined\<close>), puts each
  in front of the arguments, and pushes the function's result.
\<close>

fun popArgs :: "nat \<Rightarrow> jsval list \<Rightarrow> jsval list \<Rightarrow> jsval list \<times> jsval list" where
  "popArgs 0 results args = (args, results)"
| "popArgs (Suc n) results args =
     (if results = [] then popArgs n [] (JUndefined # args)
      else popArgs n (butlast results) (last results # args))"

definition reduce :: "nat \<Rightarrow> (jsval list \<Rightarrow> parse_error + jsval) \<Rightarrow> parse_state
    \<Rightarrow> parse_error + parse_state" where
  "reduce arity fn st =
     (case popArgs arity (psResults st) [] of
        (args, rest) \<Rightarrow>
          (case fn args of
             Inl err \<Rightarrow> Inl err
           | Inr v \<Rightarrow> Inr (st\<lparr>psResults := rest @ [v]\<rparr>)))"

definition done' :: "parse_state \<Rightarrow> jsval" where
  "done' st = (if psResults st = [] then JUndefined else last (psResults st))"

text \<open>
  The host: what a user-supplied reducer returns or throws, and the elements of an iterable
  host object.
\<close>

record host =
  callFn :: "nat \<Rightarrow> jsval list \<Rightarrow> parse_error + jsval"
  iterHost :: "nat \<Rightarrow> jsval list option"

definition arg :: "jsval list \<Rightarrow> nat \<Rightarrow> jsval" where
  "arg args i = (if i < length args then args ! i else JUndefined)"

definition spread :: "host \<Rightarrow> jsval \<Rightarrow> jsval list option" where
  "spread h v =
     (case v of
        JArray xs \<Rightarrow> Some xs
      | JString s \<Rightarrow> Some (map (\<lambda>ch. JString [ch]) s)
      | JHost n \<Rightarrow> iterHost h n
      | _ \<Rightarrow> None)"

text \<open>
  The reducers: \<^verbatim>\<open>(x) => x\<close> when the node has none, \<^verbatim>\<open>_2\<close>, \<^verbatim>\<open>cons\<close>, the two constant
  functions, a host function; and the function \<^verbatim>\<open>(arr, x) => [...arr, x]\<close> of \<^verbatim>\<open>Repeat\<close>.
\<close>

definition applyFn :: "host \<Rightarrow> seqfn option \<Rightarrow> jsval list \<Rightarrow> parse_error + jsval" where
  "applyFn h fn args =
     (case fn of
        None \<Rightarrow> Inr (arg args 0)
      | Some Proj2 \<Rightarrow> Inr (arg args 1)
      | Some ConsFn \<Rightarrow>
          (case spread h (arg args 1) of
             None \<Rightarrow> Inl JSTypeError
           | Some t \<Rightarrow> Inr (JArray (arg args 0 # t)))
      | Some PushNullFn \<Rightarrow> Inr JNull
      | Some PushArrFn \<Rightarrow> Inr (JArray [])
      | Some (UserFn n) \<Rightarrow> callFn h n args)"

definition appendFn :: "host \<Rightarrow> jsval list \<Rightarrow> parse_error + jsval" where
  "appendFn h args =
     (case spread h (arg args 0) of
        None \<Rightarrow> Inl JSTypeError
      | Some arr \<Rightarrow> Inr (JArray (arr @ [arg args 1])))"

definition pushRuleFrame :: "symbol \<Rightarrow> parse_error \<Rightarrow> parse_error" where
  "pushRuleFrame name e =
     (case e of
        ParseError msg stk \<Rightarrow> ParseError msg (stk @ [RuleFrame name])
      | _ \<Rightarrow> e)"

fun joinKeys :: "string list \<Rightarrow> string" where
  "joinKeys [] = []"
| "joinKeys [k] = k"
| "joinKeys (k # ks) = k @ '','' @ joinKeys ks"

text \<open>
  The bodies of \<^verbatim>\<open>MatchType.parse\<close> and \<^verbatim>\<open>MatchLiteral.parse\<close>, and the lookup of
  \<^verbatim>\<open>Alt.parse\<close>: the entry under the token's key, or else the entry under the end-of-input
  marker.
\<close>

definition matchType :: "string \<Rightarrow> parse_state \<Rightarrow> parse_error + parse_state" where
  "matchType ty st =
     (case nextToken st of
        (None, st') \<Rightarrow> Inl (matchError (brandType ty) None)
      | (Some t, st') \<Rightarrow>
          if tokType t \<noteq> ty then Inl (matchError (brandType ty) (Some t))
          else Inr (push (tokValue t) st'))"

definition matchLiteral :: "string \<Rightarrow> parse_state \<Rightarrow> parse_error + parse_state" where
  "matchLiteral v st =
     (case nextToken st of
        (None, st') \<Rightarrow> Inl (matchError (brandLiteral v) None)
      | (Some t, st') \<Rightarrow>
          if tokType t \<notin> {''operator'', ''keyword''} \<or> tokValue t \<noteq> JString v
          then Inl (matchError (brandLiteral v) (Some t))
          else Inr (push (tokValue t) st'))"

definition altLookup :: "(terminal \<times> parser) list \<Rightarrow> token option \<Rightarrow> parser option" where
  "altLookup parserMap tok =
     (case map_of parserMap (brandToken tok) of
        None \<Rightarrow> map_of parserMap brandEof
      | Some p \<Rightarrow> Some p)"

text \<open>
  The matchers call each other through the table of compiled rules, so a parse need not end
  (a rule may call itself before it consumes a token). \<^verbatim>\<open>parse\<close> takes fuel, one unit for
  every call of a \<^verbatim>\<open>parse\<close> method and every turn of a loop; \<^verbatim>\<open>None\<close> is a parse that has
  not returned within the fuel.
\<close>

fun parse :: "nat \<Rightarrow> host \<Rightarrow> (symbol \<times> parser) list \<Rightarrow> parser \<Rightarrow> parse_state
      \<Rightarrow> (parse_error + parse_state) option"
and parseSeq :: "nat \<Rightarrow> host \<Rightarrow> (symbol \<times> parser) list \<Rightarrow> parser list \<Rightarrow> parse_state
      \<Rightarrow> (parse_error + parse_state) option"
and parseRepeat :: "nat \<Rightarrow> host \<Rightarrow> (symbol \<times> parser) list \<Rightarrow> parser \<Rightarrow> terminal list
      \<Rightarrow> parse_state \<Rightarrow> (parse_error + parse_state) option"
where
  "parse 0 h parsers p st = None"
| "parse (Suc n) h parsers (MatchType ty) st = Some (matchType ty st)"
| "parse (Suc n) h parsers (MatchLiteral v) st = Some (matchLiteral v st)"
| "parse (Suc n) h parsers (MatchRule ruleName) st =
     (case map_of parsers ruleName of
        None \<Rightarrow> Some (Inl JSTypeError)
      | Some p \<Rightarrow>
          (case parse n h parsers p st of
             None \<Rightarrow> None
           | Some (Inl e) \<Rightarrow> Some (Inl (pushRuleFrame ruleName e))
           | Some (Inr st') \<Rightarrow> Some (Inr st')))"
| "parse (Suc n) h parsers (SeqP ps) st = parseSeq n h parsers ps st"
| "parse (Suc n) h parsers (ReduceP arity fn) st = Some (reduce arity (applyFn h fn) st)"
| "parse (Suc n) h parsers (AltP parserMap) st =
     (case altLookup parserMap (peek st) of
        None \<Rightarrow> Some (Inl (matchError (joinKeys (map fst parserMap)) (peek st)))
      | Some p \<Rightarrow> parse n h parsers p st)"
| "parse (Suc n) h parsers (RepeatP p matchSet) st =
     parseRepeat n h parsers p matchSet (push (JArray []) st)"
| "parseSeq 0 h parsers ps st = None"
| "parseSeq (Suc n) h parsers [] st = Some (Inr st)"
| "parseSeq (Suc n) h parsers (p # ps) st =
     (case parse n h parsers p st of
        None \<Rightarrow> None
      | Some (Inl e) \<Rightarrow> Some (Inl e)
      | Some (Inr st') \<Rightarrow> parseSeq n h parsers ps st')"
| "parseRepeat 0 h parsers p matchSet st = None"
| "parseRepeat (Suc n) h parsers p matchSet st =
     (case peek st of
        None \<Rightarrow> Some (Inr st)
      | Some t \<Rightarrow>
          if brandToken (Some t) \<notin> set matchSet then Some (Inr st)
          else
            (case parse n h parsers p st of
               None \<Rightarrow> None
             | Some (Inl e) \<Rightarrow> Some (Inl e)
             | Some (Inr st') \<Rightarrow>
                 (case reduce 2 (appendFn h) st' of
                    Inl e \<Rightarrow> Some (Inl e)
                  | Inr st'' \<Rightarrow> parseRepeat n h parsers p matchSet st'')))"

declare parseRepeat.simps(2) [simp del]

text \<open>
  The function \<^verbatim>\<open>createParser\<close> returns, from the token list on (the \<^verbatim>\<open>Lexer\<close> class that
  produces it is not in the sources): run the start rule's matcher on a fresh state, then
  \<^verbatim>\<open>done\<close>.
\<close>

definition runParser :: "nat \<Rightarrow> host \<Rightarrow> (symbol \<times> parser) list \<Rightarrow> parser \<Rightarrow> token list
    \<Rightarrow> (parse_error + jsval) option" where
  "runParser n h parsers p toks =
     (case parse n h parsers p (initState toks) of
        None \<Rightarrow> None
      | Some (Inl e) \<Rightarrow> Some (Inl e)
      | Some (Inr st) \<Rightarrow> Some (Inr (done' st)))"


section \<open>The simplifier (\<^verbatim>\<open>ASTSimplifier\<close>)\<close>

text \<open>
  Modelled from the spec: the type \<^verbatim>\<open>AST\<close> of the surface grammar, which \<^verbatim>\<open>./core\<close> declares
  and the sources do not hold. The constructors and fields are the ones \<^verbatim>\<open>simplify\<close> reads
  (\<^verbatim>\<open>node.type\<close>, \<^verbatim>\<open>node.value\<close>, \<^verbatim>\<open>node.exprs\<close>, \<^verbatim>\<open>node.fn\<close>, \<^verbatim>\<open>node.startToken\<close>, \<dots>); the
  optional reducer of a structure node is the \<^verbatim>\<open>reducer?\<close> of the spec's data model,
  \<^verbatim>\<open>structure(startTerm, content, endTerm, reducer?)\<close>.
\<close>

datatype terminal_kind = KeywordT | OperatorT | IdentifierT | ValueT

datatype ast =
    ErrorNode string
  | Ruleset "(string \<times> ast) list"
  | LiteralNode string
  | TerminalNode terminal_kind
  | IdentifierNode string
  | Structure string ast string "seqfn option"
  | SeqNode "ast list" "seqfn option"
  | AltNode "ast list"
  | Repeat0Node ast
  | Repeat1Node ast
  | MaybeNode ast
  | SepBy0 ast ast
  | SepBy1 ast ast

text \<open>
  The simplifier's state: its rule table, the stack of scopes of its \<^verbatim>\<open>ScopeManager\<close> (the
  innermost scope last), the two sets and the two rule symbols of its \<^verbatim>\<open>LiteralManager\<close>,
  and the number of symbols created so far: \<^verbatim>\<open>Symbol()\<close> returns the next one.
\<close>

record simplifier_state =
  ruleMap :: rule_table
  scopeStack :: "(string \<times> symbol) list list"
  keywordSet :: "string list"
  operatorSet :: "string list"
  keywordRule :: symbol
  operatorRule :: symbol
  symbolCount :: nat

definition pushNull :: simple_ast where
  "pushNull = Reduce 0 (Some PushNullFn)"

definition pushArr :: simple_ast where
  "pushArr = Reduce 0 (Some PushArrFn)"

definition orArr :: "simple_ast \<Rightarrow> simple_ast" where
  "orArr expr = Alt [expr, pushArr]"

text \<open>The auxiliary rule of a separated list: \<^verbatim>\<open>Rule = Expr (Sep Rule?)?\<close>.\<close>

definition sepRule :: "symbol \<Rightarrow> simple_ast \<Rightarrow> simple_ast \<Rightarrow> simple_ast" where
  "sepRule ruleName expr sep =
     Seq [expr,
          orArr (Seq [sep, orArr (Nonterminal ruleName), Reduce 2 (Some Proj2)]),
          Reduce 2 (Some ConsFn)]"

text \<open>
  \<^verbatim>\<open>LiteralManager.add\<close>. The pattern \<^verbatim>\<open>identifierPattern\<close> of \<^verbatim>\<open>./lexer\<close> is not in the
  sources: whether a literal matches it is the parameter \<open>isKeyword\<close>.
\<close>

definition addLiteral :: "(string \<Rightarrow> bool) \<Rightarrow> string \<Rightarrow> simplifier_state
    \<Rightarrow> simple_ast \<times> simplifier_state" where
  "addLiteral isKeyword literal st =
     (Literal literal,
      if isKeyword literal then st\<lparr>keywordSet := setAdd (keywordSet st) literal\<rparr>
      else st\<lparr>operatorSet := setAdd (operatorSet st) literal\<rparr>)"

text \<open>\<^verbatim>\<open>ScopeManager.lookup\<close>: from the innermost scope outwards.\<close>

fun lookupScopes :: "(string \<times> symbol) list list \<Rightarrow> string \<Rightarrow> symbol option" where
  "lookupScopes [] name = None"
| "lookupScopes (scope # outer) name =
     (case map_of scope name of
        Some ruleSym \<Rightarrow> Some ruleSym
      | None \<Rightarrow> lookupScopes outer name)"

definition lookup :: "simplifier_state \<Rightarrow> string \<Rightarrow> symbol option" where
  "lookup st name = lookupScopes (rev (scopeStack st)) name"

text \<open>
  The first loop of \<^verbatim>\<open>compileRuleset\<close>: one new symbol for each rule, in the rules' order,
  entered in the new scope under the rule's name. The rule at position \<open>i\<close> gets the symbol
  \<open>first + i\<close>.
\<close>

fun buildScope :: "(string \<times> ast) list \<Rightarrow> symbol \<Rightarrow> (string \<times> symbol) list
    \<Rightarrow> (string \<times> symbol) list" where
  "buildScope [] ruleSym nextScope = nextScope"
| "buildScope ((name, expr) # rules) ruleSym nextScope =
     buildScope rules (Suc ruleSym) (mapSet name ruleSym nextScope)"

text \<open>
  \<^verbatim>\<open>simplify\<close>, with \<^verbatim>\<open>simplifyList\<close> for the \<^verbatim>\<open>map\<close> over a node's children and \<^verbatim>\<open>addRules\<close>
  for the second loop of \<^verbatim>\<open>compileRuleset\<close>, which simplifies each rule's body and enters it
  in the rule table under the rule's symbol.
\<close>

fun simplify :: "(string \<Rightarrow> bool) \<Rightarrow> simplifier_state \<Rightarrow> ast
      \<Rightarrow> grammar_error + simple_ast \<times> simplifier_state"
and simplifyList :: "(string \<Rightarrow> bool) \<Rightarrow> simplifier_state \<Rightarrow> ast list
      \<Rightarrow> grammar_error + simple_ast list \<times> simplifier_state"
and addRules :: "(string \<Rightarrow> bool) \<Rightarrow> simplifier_state \<Rightarrow> symbol \<Rightarrow> (string \<times> ast) list
      \<Rightarrow> grammar_error + simplifier_state"
where
  "simplify k st (ErrorNode message) = Inl (NodeError message)"
| "simplify k st (Ruleset rules) =
     (if rules = [] then Inl EmptyRuleset
      else
        let nextScope = buildScope rules (symbolCount st) [];
            st1 = st\<lparr>symbolCount := symbolCount st + length rules,
                     scopeStack := scopeStack st @ [nextScope]\<rparr>
        in case addRules k st1 (symbolCount st) rules of
             Inl err \<Rightarrow> Inl err
           | Inr st2 \<Rightarrow>
               Inr (Nonterminal (the (map_of nextScope (fst (hd rules)))),
                    st2\<lparr>scopeStack := butlast (scopeStack st2)\<rparr>))"
| "simplify k st (LiteralNode v) = Inr (addLiteral k v st)"
| "simplify k st (TerminalNode kind) =
     Inr (case kind of
            KeywordT \<Rightarrow> Nonterminal (keywordRule st)
          | OperatorT \<Rightarrow> Nonterminal (operatorRule st)
          | IdentifierT \<Rightarrow> Identifier
          | ValueT \<Rightarrow> Value, st)"
| "simplify k st (IdentifierNode name) =
     (case lookup st name of
        None \<Rightarrow> Inl (UnknownIdentifier name)
      | Some ruleSym \<Rightarrow> Inr (Nonterminal ruleSym, st))"
| "simplify k st (Structure startToken expr endToken reducer) =
     (case addLiteral k startToken st of
        (openLit, st1) \<Rightarrow>
          (case simplify k st1 expr of
             Inl err \<Rightarrow> Inl err
           | Inr (content, st2) \<Rightarrow>
               (case addLiteral k endToken st2 of
                  (closeLit, st3) \<Rightarrow>
                    Inr (Seq [openLit, content, closeLit, Reduce 3 (Some Proj2)], st3))))"
| "simplify k st (SeqNode exprs fn) =
     (case simplifyList k st exprs of
        Inl err \<Rightarrow> Inl err
      | Inr (exprs', st') \<Rightarrow> Inr (Seq (exprs' @ [Reduce (length exprs) fn]), st'))"
| "simplify k st (AltNode exprs) =
     (case simplifyList k st exprs of
        Inl err \<Rightarrow> Inl err
      | Inr (exprs', st') \<Rightarrow> Inr (Alt exprs', st'))"
| "simplify k st (Repeat0Node expr) =
     (case simplify k st expr of
        Inl err \<Rightarrow> Inl err
      | Inr (expr', st') \<Rightarrow> Inr (Repeat0 expr', st'))"
| "simplify k st (Repeat1Node expr) =
     (case simplify k st expr of
        Inl err \<Rightarrow> Inl err
      | Inr (expr', st') \<Rightarrow> Inr (Seq [expr', Repeat0 expr', Reduce 2 (Some ConsFn)], st'))"
| "simplify k st (MaybeNode expr) =
     (case simplify k st expr of
        Inl err \<Rightarrow> Inl err
      | Inr (expr', st') \<Rightarrow> Inr (Alt [expr', pushNull], st'))"
| "simplify k st (SepBy0 expr separator) =
     (let ruleName = symbolCount st in
      case simplify k (st\<lparr>symbolCount := Suc (symbolCount st)\<rparr>) expr of
        Inl err \<Rightarrow> Inl err
      | Inr (expr', st1) \<Rightarrow>
          (case simplify k st1 separator of
             Inl err \<Rightarrow> Inl err
           | Inr (sep, st2) \<Rightarrow>
               Inr (orArr (Nonterminal ruleName),
                    st2\<lparr>ruleMap := mapSet ruleName (sepRule ruleName expr' sep) (ruleMap st2)\<rparr>)))"
| "simplify k st (SepBy1 expr separator) =
     (let ruleName = symbolCount st in
      case simplify k (st\<lparr>symbolCount := Suc (symbolCount st)\<rparr>) expr of
        Inl err \<Rightarrow> Inl err
      | Inr (expr', st1) \<Rightarrow>
          (case simplify k st1 separator of
             Inl err \<Rightarrow> Inl err
           | Inr (sep, st2) \<Rightarrow>
               Inr (Nonterminal ruleName,
                    st2\<lparr>ruleMap := mapSet ruleName (sepRule ruleName expr' sep) (ruleMap st2)\<rparr>)))"
| "simplifyList k st [] = Inr ([], st)"
| "simplifyList k st (e # es) =
     (case simplify k st e of
        Inl err \<Rightarrow> Inl err
      | Inr (e', st1) \<Rightarrow>
          (case simplifyList k st1 es of
             Inl err \<Rightarrow> Inl err
           | Inr (es', st2) \<Rightarrow> Inr (e' # es', st2)))"
| "addRules k st ruleSym [] = Inr st"
| "addRules k st ruleSym ((name, expr) # rules) =
     (case simplify k st expr of
        Inl err \<Rightarrow> Inl err
      | Inr (body, st1) \<Rightarrow>
          addRules k (st1\<lparr>ruleMap := mapSet ruleSym body (ruleMap st1)\<rparr>) (Suc ruleSym) rules)"

text \<open>
  \<^verbatim>\<open>simplifyAll\<close> on a new simplifier. The symbols of the keyword rule, the operator rule and
  the start rule are created first, in this order. \<^verbatim>\<open>createAlts\<close> makes the two synthetic
  rules. The result holds the start rule, the rule table and the two sets of literals.
\<close>

definition newSimplifier :: simplifier_state where
  "newSimplifier = \<lparr>ruleMap = [], scopeStack = [], keywordSet = [], operatorSet = [],
     keywordRule = 0, operatorRule = 1, symbolCount = 2\<rparr>"

definition createAlts :: "string list \<Rightarrow> simple_ast" where
  "createAlts lits = Alt (map Literal lits)"

definition simplifyAll :: "(string \<Rightarrow> bool) \<Rightarrow> ast
    \<Rightarrow> grammar_error + symbol \<times> rule_table \<times> string list \<times> string list" where
  "simplifyAll k node =
     (let startRule = symbolCount newSimplifier;
          st0 = newSimplifier\<lparr>symbolCount := Suc (symbolCount newSimplifier)\<rparr>
      in case simplify k st0 node of
           Inl err \<Rightarrow> Inl err
         | Inr (body, st1) \<Rightarrow>
             (let rules1 = mapSet startRule body (ruleMap st1);
                  rules2 = mapSet (keywordRule st1) (createAlts (keywordSet st1)) rules1;
                  rules3 = mapSet (operatorRule st1) (createAlts (operatorSet st1)) rules2
              in Inr (startRule, rules3, keywordSet st1, operatorSet st1)))"

text \<open>
  \<^verbatim>\<open>createParser\<close> up to the function it returns: simplify, compile every rule, take the start
  rule's matcher.
\<close>

definition createParser :: "(string \<Rightarrow> bool) \<Rightarrow> ast
    \<Rightarrow> grammar_error + (symbol \<times> parser) list \<times> parser" where
  "createParser k node =
     (case simplifyAll k node of
        Inl err \<Rightarrow> Inl err
      | Inr (startRule, rules, kws, ops) \<Rightarrow>
          (case compileRuleset rules of
             Inl err \<Rightarrow> Inl err
           | Inr parserMap \<Rightarrow>
               (case map_of parserMap startRule of
                  None \<Rightarrow> Inl UndefinedRule
                | Some p \<Rightarrow> Inr (parserMap, p))))"


section \<open>The tokenizer\<close>

text \<open>
  A string is the list of its code units. \<^verbatim>\<open>String(value)\<close> is the string itself for a string,
  \<^verbatim>\<open>null\<close> and \<^verbatim>\<open>undefined\<close> for these two values, and the host's conversion \<open>toStr\<close> (a
  parameter) for everything else.
\<close>

definition stringOf :: "(jsval \<Rightarrow> string) \<Rightarrow> jsval \<Rightarrow> string" where
  "stringOf toStr v =
     (case v of
        JString s \<Rightarrow> s
      | JNull \<Rightarrow> ''null''
      | JUndefined \<Rightarrow> ''undefined''
      | _ \<Rightarrow> toStr v)"

datatype lexer_error =
    NoTokenMatchError nat nat
  | NewlineInString
  | StringLeftOpen

text \<open>
  \<^verbatim>\<open>LexerState\<close>: the position (\<^verbatim>\<open>index\<close> in the fragment \<^verbatim>\<open>strings[outerIndex]\<close>) and the
  tokens pushed so far. The fragments \<open>strs\<close> and the interpolated values \<open>interps\<close> do not
  change and are arguments.
\<close>

record lexer_state =
  lsIndex :: nat
  lsOuterIndex :: nat
  lsTokens :: "token list"

definition hasStrings :: "string list \<Rightarrow> lexer_state \<Rightarrow> bool" where
  "hasStrings strs st = (lsOuterIndex st < length strs)"

text \<open>The current fragment; \<^verbatim>\<open>strings[outerIndex]\<close> is \<^verbatim>\<open>undefined\<close> past the last one.\<close>

definition buffer :: "string list \<Rightarrow> lexer_state \<Rightarrow> string option" where
  "buffer strs st =
     (if lsOuterIndex st < length strs then Some (strs ! lsOuterIndex st) else None)"

definition nextChar :: "string list \<Rightarrow> lexer_state \<Rightarrow> char option" where
  "nextChar strs st =
     (case buffer strs st of
        None \<Rightarrow> None
      | Some buf \<Rightarrow> if lsIndex st < length buf then Some (buf ! lsIndex st) else None)"

text \<open>The rest of the current fragment, from the position on: what a sticky pattern sees.\<close>

definition remaining :: "string list \<Rightarrow> lexer_state \<Rightarrow> string" where
  "remaining strs st =
     (case buffer strs st of None \<Rightarrow> [] | Some buf \<Rightarrow> drop (lsIndex st) buf)"

definition pushToken :: "token \<Rightarrow> lexer_state \<Rightarrow> lexer_state" where
  "pushToken t st = st\<lparr>lsTokens := lsTokens st @ [t]\<rparr>"

definition advance :: "nat \<Rightarrow> lexer_state \<Rightarrow> lexer_state" where
  "advance n st = st\<lparr>lsIndex := lsIndex st + n\<rparr>"

text \<open>
  \<^verbatim>\<open>getInterpolation\<close>: the value token of the next interpolated value, if there is one, and the
  state moved to the start of the next fragment.
\<close>

definition getInterpolation :: "jsval list \<Rightarrow> lexer_state \<Rightarrow> token option \<times> lexer_state" where
  "getInterpolation interps st =
     (if lsOuterIndex st < length interps
      then Some \<lparr>tokType = ''value'', tokValue = interps ! lsOuterIndex st, tokIndex = 0,
                 tokOuterIndex = lsOuterIndex st + 1, tokLength = 0\<rparr>
      else None,
      st\<lparr>lsOuterIndex := lsOuterIndex st + 1, lsIndex := 0\<rparr>)"

subsection \<open>The patterns\<close>

text \<open>
  Each pattern is sticky: it matches at the position or not at all. A match is the number of
  the capture group that matched and the length of the matched text.

  The quote patterns \<^verbatim>\<open>((?:\\['\\]|[^\n'\\])+)|(')\<close>, for the quote character \<open>q\<close>: group 1 is the
  longest run of escaped quotes, escaped backslashes and characters other than newline, quote
  and backslash; group 2 is the quote.
\<close>

fun quoteBody :: "char \<Rightarrow> string \<Rightarrow> nat" where
  "quoteBody q [] = 0"
| "quoteBody q [c] = (if c = CHR 0x5C \<or> c = CHR 0x0A \<or> c = q then 0 else 1)"
| "quoteBody q (c # d # cs) =
     (if c = CHR 0x5C then (if d = q \<or> d = CHR 0x5C then 2 + quoteBody q cs else 0)
      else if c = CHR 0x0A \<or> c = q then 0
      else 1 + quoteBody q (d # cs))"

definition quotePattern :: "char \<Rightarrow> string \<Rightarrow> (nat \<times> nat) option" where
  "quotePattern q s =
     (if 0 < quoteBody q s then Some (1, quoteBody q s)
      else if s \<noteq> [] \<and> hd s = q then Some (2, 1)
      else None)"

text \<open>
  The comment patterns. \<^verbatim>\<open>([^\n]+)|(\n)\<close> for a line comment; \<^verbatim>\<open>((?:\*[^/]|[^*])+)|(\*\/)\<close> for a block
  comment, where a star followed by a character other than a slash takes both characters.
\<close>

definition lineCommentPattern :: "string \<Rightarrow> (nat \<times> nat) option" where
  "lineCommentPattern s =
     (if 0 < length (takeWhile (\<lambda>c. c \<noteq> CHR 0x0A) s)
      then Some (1, length (takeWhile (\<lambda>c. c \<noteq> CHR 0x0A) s))
      else if s \<noteq> [] then Some (2, 1)
      else None)"

fun blockBody :: "string \<Rightarrow> nat" where
  "blockBody [] = 0"
| "blockBody [c] = (if c = CHR ''*'' then 0 else 1)"
| "blockBody (c # d # cs) =
     (if c = CHR ''*'' then (if d \<noteq> CHR ''/'' then 2 + blockBody cs else 0)
      else 1 + blockBody (d # cs))"

definition blockCommentPattern :: "string \<Rightarrow> (nat \<times> nat) option" where
  "blockCommentPattern s =
     (if 0 < blockBody s then Some (1, blockBody s)
      else if take 2 s = ''*/'' then Some (2, 2)
      else None)"

text \<open>
  The main pattern: nine groups, tried in this order. The classes \<^verbatim>\<open>\p{ID_Start}\<close> and
  \<^verbatim>\<open>\p{ID_Continue}\<close> (with the two joiners) are the parameters \<open>idStart\<close> and \<open>idContinue\<close>.
\<close>

definition run :: "(char \<Rightarrow> bool) \<Rightarrow> string \<Rightarrow> nat" where
  "run P s = length (takeWhile P s)"

definition isSpace :: "char \<Rightarrow> bool" where
  "isSpace c = (c = CHR '' '' \<or> c = CHR 0x09 \<or> c = CHR 0x0A)"

definition isDigit :: "char \<Rightarrow> bool" where
  "isDigit c = (c \<in> set ''0123456789_'')"

definition isHexDigit :: "char \<Rightarrow> bool" where
  "isHexDigit c = (c \<in> set ''0123456789ABCDEFabcdef_'')"

definition isOctDigit :: "char \<Rightarrow> bool" where
  "isOctDigit c = (c \<in> set ''01234567_'')"

definition isBinDigit :: "char \<Rightarrow> bool" where
  "isBinDigit c = (c \<in> set ''01_'')"

definition isOperatorChar :: "char \<Rightarrow> bool" where
  "isOperatorChar c = (c \<in> set ''!@#%^&*-+=|/:<>.?~'')"

definition isSeparator :: "char \<Rightarrow> bool" where
  "isSeparator c = (c \<in> set '';{}()[],'')"

text \<open>A prefix followed by at least one digit of its class: \<^verbatim>\<open>0x[0-9A-Fa-f_]+\<close> and the like.\<close>

definition prefixed :: "string \<Rightarrow> (char \<Rightarrow> bool) \<Rightarrow> string \<Rightarrow> nat option" where
  "prefixed pre P s =
     (if take (length pre) s = pre \<and> 0 < run P (drop (length pre) s)
      then Some (length pre + run P (drop (length pre) s))
      else None)"

text \<open>\<^verbatim>\<open>-?[0-9_]+(?:\.[0-9_]*)?(?:[eE]-?[0-9_])?\<close>\<close>

definition fraction :: "string \<Rightarrow> nat" where
  "fraction s = (if s \<noteq> [] \<and> hd s = CHR ''.'' then 1 + run isDigit (tl s) else 0)"

definition exponent :: "string \<Rightarrow> nat" where
  "exponent s =
     (if s \<noteq> [] \<and> (hd s = CHR ''e'' \<or> hd s = CHR ''E'') then
        (let t = tl s;
             sign = (if t \<noteq> [] \<and> hd t = CHR ''-'' then 1 else 0);
             u = drop sign t
         in if u \<noteq> [] \<and> isDigit (hd u) then 1 + sign + 1 else 0)
      else 0)"

definition decimalPattern :: "string \<Rightarrow> nat option" where
  "decimalPattern s =
     (let sign = (if s \<noteq> [] \<and> hd s = CHR ''-'' then 1 else 0);
          digits = run isDigit (drop sign s)
      in if digits = 0 then None
         else
           (let f = fraction (drop (sign + digits) s);
                e = exponent (drop (sign + digits + f) s)
            in Some (sign + digits + f + e)))"

definition identifierPattern :: "(char \<Rightarrow> bool) \<Rightarrow> (char \<Rightarrow> bool) \<Rightarrow> string \<Rightarrow> nat option" where
  "identifierPattern idStart idContinue s =
     (if s \<noteq> [] \<and> (hd s = CHR ''$'' \<or> hd s = CHR ''_'' \<or> idStart (hd s))
      then Some (1 + run (\<lambda>c. c = CHR ''$'' \<or> idContinue c) (tl s))
      else None)"

definition operatorPattern :: "string \<Rightarrow> nat option" where
  "operatorPattern s =
     (if s \<noteq> [] \<and> isSeparator (hd s) then Some 1
      else if 0 < run isOperatorChar s then Some (run isOperatorChar s)
      else None)"

definition mainPattern :: "(char \<Rightarrow> bool) \<Rightarrow> (char \<Rightarrow> bool) \<Rightarrow> string \<Rightarrow> (nat \<times> nat) option" where
  "mainPattern idStart idContinue s =
     (if 0 < run isSpace s then Some (1, run isSpace s)
      else if take 2 s = ''//'' then Some (2, 2)
      else if take 2 s = ''/*'' then Some (3, 2)
      else case prefixed ''0x'' isHexDigit s of Some n \<Rightarrow> Some (4, n) | None \<Rightarrow>
      case prefixed ''0o'' isOctDigit s of Some n \<Rightarrow> Some (5, n) | None \<Rightarrow>
      case prefixed ''0b'' isBinDigit s of Some n \<Rightarrow> Some (6, n) | None \<Rightarrow>
      case decimalPattern s of Some n \<Rightarrow> Some (7, n) | None \<Rightarrow>
      case identifierPattern idStart idContinue s of Some n \<Rightarrow> Some (8, n) | None \<Rightarrow>
      case operatorPattern s of Some n \<Rightarrow> Some (9, n) | None \<Rightarrow> None)"

subsection \<open>The states of the lexer\<close>

text \<open>
  \<^verbatim>\<open>quote\<close>: the inner loop reads the current fragment; at its end the next interpolated
  value, if there is one, is appended to the token's value as a string, and the loop goes on
  in the next fragment if there is one. \<open>quoteLoop\<close> is the inner loop together with what
  follows it in the outer loop.
\<close>

definition appendValue :: "token \<Rightarrow> string \<Rightarrow> token" where
  "appendValue t s = t\<lparr>tokValue := JString (tokText t @ s)\<rparr>"

function quoteLoop :: "string list \<Rightarrow> jsval list \<Rightarrow> (jsval \<Rightarrow> string) \<Rightarrow> char \<Rightarrow> token
    \<Rightarrow> lexer_state \<Rightarrow> lexer_error + lexer_state" where
  "quoteLoop strs interps toStr q tok st =
     (case nextChar strs st of
        Some ch \<Rightarrow>
          (case quotePattern q (remaining strs st) of
             None \<Rightarrow> Inl NewlineInString
           | Some (g, n) \<Rightarrow>
               if g = 1 then
                 quoteLoop strs interps toStr q
                   ((appendValue tok (take n (remaining strs st)))\<lparr>tokLength := tokLength tok + n\<rparr>)
                   (advance n st)
               else Inr (pushToken (tok\<lparr>tokLength := tokLength tok + 1\<rparr>) (advance n st)))
      | None \<Rightarrow>
          (case getInterpolation interps st of
             (interpolatedToken, st') \<Rightarrow>
               (let tok' = (case interpolatedToken of
                              Some t \<Rightarrow> appendValue tok (stringOf toStr (tokValue t))
                            | None \<Rightarrow> tok)
                in if hasStrings strs st' then quoteLoop strs interps toStr q tok' st'
                   else Inl StringLeftOpen)))"
  by pat_completeness auto

termination
  apply (relation "measures [\<lambda>(strs, interps, toStr, q, tok, st). length strs - lsOuterIndex st,
                           \<lambda>(strs, interps, toStr, q, tok, st). length (remaining strs st)]")
  subgoal by simp
  subgoal for strs interps toStr q tok st x y xa
    by (auto simp: getInterpolation_def hasStrings_def)
  subgoal for strs interps toStr q tok st x2 x2a x y
    by (auto simp: nextChar_def remaining_def advance_def buffer_def quotePattern_def
        split: option.splits if_splits)
  done

declare quoteLoop.simps [simp del]

text \<open>\<^verbatim>\<open>quote\<close> itself: the token starts at the opening quote, which the caller has passed.\<close>

definition quote :: "string list \<Rightarrow> jsval list \<Rightarrow> (jsval \<Rightarrow> string) \<Rightarrow> char \<Rightarrow> lexer_state
    \<Rightarrow> lexer_error + lexer_state" where
  "quote strs interps toStr q st =
     (let tok = \<lparr>tokType = ''value'', tokValue = JString [], tokIndex = lsIndex st - 1,
                 tokOuterIndex = lsOuterIndex st, tokLength = 1\<rparr>
      in if hasStrings strs st then quoteLoop strs interps toStr q tok st
         else Inl StringLeftOpen)"

text \<open>
  \<^verbatim>\<open>comment\<close>, for the line comment pattern (\<open>block\<close> false) or the block comment pattern: it
  returns when the pattern does not match or matches its closing group, and goes through the
  interpolated values, which it drops.
\<close>

definition commentPattern :: "bool \<Rightarrow> string \<Rightarrow> (nat \<times> nat) option" where
  "commentPattern block s = (if block then blockCommentPattern s else lineCommentPattern s)"

function commentLoop :: "string list \<Rightarrow> jsval list \<Rightarrow> bool \<Rightarrow> lexer_state \<Rightarrow> lexer_state" where
  "commentLoop strs interps block st =
     (case nextChar strs st of
        Some ch \<Rightarrow>
          (case commentPattern block (remaining strs st) of
             None \<Rightarrow> st
           | Some (g, n) \<Rightarrow>
               if g = 2 then advance n st
               else commentLoop strs interps block (advance n st))
      | None \<Rightarrow>
          (case getInterpolation interps st of
             (interpolatedToken, st') \<Rightarrow>
               if hasStrings strs st' then commentLoop strs interps block st' else st'))"
  by pat_completeness auto

termination
  apply (relation "measures [\<lambda>(strs, interps, block, st). length strs - lsOuterIndex st,
                           \<lambda>(strs, interps, block, st). length (remaining strs st)]")
  subgoal by simp
  subgoal for strs interps block st x y
    by (auto simp: getInterpolation_def hasStrings_def)
  subgoal premises prems for strs interps block st x2 x2a x y
  proof -
    from prems(2,3) have "0 < y"
      by (auto simp: commentPattern_def blockCommentPattern_def lineCommentPattern_def
          split: if_splits)
    moreover from prems(1) have "lsOuterIndex st < length strs"
      "lsIndex st < length (strs ! lsOuterIndex st)"
      by (auto simp: nextChar_def buffer_def split: option.splits if_splits)
    ultimately show ?thesis by (simp add: remaining_def advance_def buffer_def)
  qed
  done

declare commentLoop.simps [simp del]

definition comment :: "string list \<Rightarrow> jsval list \<Rightarrow> bool \<Rightarrow> lexer_state \<Rightarrow> lexer_state" where
  "comment strs interps block st =
     (if hasStrings strs st then commentLoop strs interps block st else st)"

text \<open>
  \<^verbatim>\<open>mainState\<close>. A number token's value is \<^verbatim>\<open>Number\<close> of the matched text: the conversion of
  the host, the parameter \<open>toNumber\<close>.
  At the end of a fragment the token of \<^verbatim>\<open>getInterpolation\<close>, if there is one, is pushed.
\<close>

definition lexeme :: "string \<Rightarrow> jsval \<Rightarrow> lexer_state \<Rightarrow> nat \<Rightarrow> token" where
  "lexeme ty v st n =
     \<lparr>tokType = ty, tokValue = v, tokIndex = lsIndex st, tokOuterIndex = lsOuterIndex st,
      tokLength = n\<rparr>"

definition pushInterpolation :: "jsval list \<Rightarrow> lexer_state \<Rightarrow> lexer_state" where
  "pushInterpolation interps st =
     (case getInterpolation interps st of
        (Some t, st') \<Rightarrow> pushToken t st'
      | (None, st') \<Rightarrow> st')"

function mainLoop :: "string list \<Rightarrow> jsval list \<Rightarrow> (jsval \<Rightarrow> string) \<Rightarrow> (string \<Rightarrow> jsval)
    \<Rightarrow> (char \<Rightarrow> bool) \<Rightarrow> (char \<Rightarrow> bool) \<Rightarrow> lexer_state \<Rightarrow> lexer_error + lexer_state" where
  "mainLoop strs interps toStr toNumber idStart idContinue st =
     (case nextChar strs st of
        Some ch \<Rightarrow>
          if ch = CHR 0x27 \<or> ch = CHR 0x22 then
            (case quote strs interps toStr ch (advance 1 st) of
               Inl err \<Rightarrow> Inl err
             | Inr st' \<Rightarrow> mainLoop strs interps toStr toNumber idStart idContinue st')
          else
            (case mainPattern idStart idContinue (remaining strs st) of
               None \<Rightarrow> Inl (NoTokenMatchError (lsIndex st) (lsOuterIndex st))
             | Some (g, n) \<Rightarrow>
                 (let matchedString = take n (remaining strs st) in
                  mainLoop strs interps toStr toNumber idStart idContinue
                    (if g = 2 then comment strs interps False (advance n st)
                     else if g = 3 then comment strs interps True (advance n st)
                     else if g = 4 \<or> g = 5 \<or> g = 6 \<or> g = 7 then
                       pushToken (lexeme ''value'' (toNumber matchedString) st n) (advance n st)
                     else if g = 8 then
                       pushToken (lexeme ''identifier'' (JString matchedString) st n) (advance n st)
                     else if g = 9 then
                       pushToken (lexeme ''operator'' (JString matchedString) st n) (advance n st)
                     else advance n st)))
      | None \<Rightarrow>
          (let st' = pushInterpolation interps st
           in if hasStrings strs st' then mainLoop strs interps toStr toNumber idStart idContinue st'
              else Inr st'))"
  by pat_completeness auto

termination
proof -
  let ?le = "\<lambda>s s'. lsOuterIndex s < lsOuterIndex s'
      \<or> (lsOuterIndex s = lsOuterIndex s' \<and> lsIndex s \<le> lsIndex s')"
  have Q: "?le s s'" if "quoteLoop strs interps toStr q tok s = Inr s'"
    for strs interps toStr q tok s s'
    using that
  proof (induction strs interps toStr q tok s rule: quoteLoop.induct)
    case (1 strs interps toStr q tok st)
    show ?case
    proof (cases "nextChar strs st")
      case None
      let ?it = "fst (getInterpolation interps st)"
      let ?st' = "snd (getInterpolation interps st)"
      let ?tok' = "case ?it of None \<Rightarrow> tok | Some t \<Rightarrow> appendValue tok (stringOf toStr (tokValue t))"
      from "1.prems" None have hs: "hasStrings strs ?st'"
        and r: "quoteLoop strs interps toStr q ?tok' ?st' = Inr s'"
        by (auto simp: quoteLoop.simps[of strs interps toStr q tok st] Let_def
            split: prod.splits if_splits)
      have "?le ?st' s'"
        by (rule "1.IH"(1)[OF None prod.collapse refl hs r])
      moreover have "lsOuterIndex ?st' = Suc (lsOuterIndex st)"
        by (simp add: getInterpolation_def)
      ultimately show ?thesis by auto
    next
      case (Some ch)
      from "1.prems" Some obtain g n where qp: "quotePattern q (remaining strs st) = Some (g, n)"
        by (auto simp: quoteLoop.simps[of strs interps toStr q tok st] split: option.splits)
      show ?thesis
      proof (cases "g = 1")
        case True
        from "1.prems" Some qp True
        have r: "quoteLoop strs interps toStr q
            ((appendValue tok (take n (remaining strs st)))\<lparr>tokLength := tokLength tok + n\<rparr>)
            (advance n st) = Inr s'"
          by (simp add: quoteLoop.simps[of strs interps toStr q tok st])
        have "?le (advance n st) s'"
          by (rule "1.IH"(2)[OF Some qp refl True r])
        then show ?thesis by (auto simp: advance_def)
      next
        case False
        from "1.prems" Some qp False
        have "s' = pushToken (tok\<lparr>tokLength := tokLength tok + 1\<rparr>) (advance n st)"
          by (simp add: quoteLoop.simps[of strs interps toStr q tok st])
        then show ?thesis by (simp add: pushToken_def advance_def)
      qed
    qed
  qed
  have C: "?le s (commentLoop strs interps block s)" for strs interps block s
  proof (induction strs interps block s rule: commentLoop.induct)
    case (1 strs interps block st)
    show ?case
    proof (cases "nextChar strs st")
      case None
      let ?st' = "snd (getInterpolation interps st)"
      have o: "lsOuterIndex ?st' = Suc (lsOuterIndex st)"
        by (simp add: getInterpolation_def)
      show ?thesis
      proof (cases "hasStrings strs ?st'")
        case True
        have "?le ?st' (commentLoop strs interps block ?st')"
          by (rule "1.IH"(1)[OF None prod.collapse True])
        moreover from None True
        have "commentLoop strs interps block st = commentLoop strs interps block ?st'"
          by (simp add: commentLoop.simps[of strs interps block st] case_prod_beta)
        ultimately show ?thesis using o by auto
      next
        case False
        with None have "commentLoop strs interps block st = ?st'"
          by (simp add: commentLoop.simps[of strs interps block st] case_prod_beta)
        then show ?thesis using o by simp
      qed
    next
      case (Some ch)
      show ?thesis
      proof (cases "commentPattern block (remaining strs st)")
        case None
        with Some show ?thesis
          by (simp add: commentLoop.simps[of strs interps block st])
      next
        case (Some gn)
        obtain g n where gn: "gn = (g, n)" by (cases gn)
        show ?thesis
        proof (cases "g = 2")
          case True
          with \<open>nextChar strs st = Some ch\<close> Some gn show ?thesis
            by (simp add: commentLoop.simps[of strs interps block st] advance_def)
        next
          case False
          have "?le (advance n st) (commentLoop strs interps block (advance n st))"
            by (rule "1.IH"(2)[OF \<open>nextChar strs st = Some ch\<close> Some[unfolded gn] refl False])
          moreover from \<open>nextChar strs st = Some ch\<close> Some gn False
          have "commentLoop strs interps block st = commentLoop strs interps block (advance n st)"
            by (simp add: commentLoop.simps[of strs interps block st])
          ultimately show ?thesis by (auto simp: advance_def)
        qed
      qed
    qed
  qed
  have M: "0 < n" if "mainPattern idStart idContinue s = Some (g, n)" for idStart idContinue s g n
    using that
    by (auto simp: mainPattern_def prefixed_def decimalPattern_def identifierPattern_def
        operatorPattern_def Let_def split: if_splits option.splits)
  have D: "(a, b) \<in> measures [\<lambda>(strs, interps, toStr, toNumber, idStart, idContinue, st). length strs - lsOuterIndex st,
                           \<lambda>(strs, interps, toStr, toNumber, idStart, idContinue, st). length (remaining strs st)]"
    if "a = (strs, interps, toStr, toNumber, idStart, idContinue, s')"
      and "b = (strs, interps, toStr, toNumber, idStart, idContinue, s)"
      and "nextChar strs s = Some ch"
      and "lsOuterIndex s < lsOuterIndex s'
        \<or> (lsOuterIndex s = lsOuterIndex s' \<and> lsIndex s < lsIndex s')"
    for a b strs interps toStr toNumber idStart idContinue s s' ch
  proof -
    from that(3) have i: "lsOuterIndex s < length strs" "lsIndex s < length (strs ! lsOuterIndex s)"
      by (auto simp: nextChar_def buffer_def split: option.splits if_splits)
    from that(4) show ?thesis
    proof
      assume "lsOuterIndex s < lsOuterIndex s'"
      with i have "length strs - lsOuterIndex s' < length strs - lsOuterIndex s" by simp
      then show ?thesis by (simp add: that(1,2))
    next
      assume a: "lsOuterIndex s = lsOuterIndex s' \<and> lsIndex s < lsIndex s'"
      with i have "length (strs ! lsOuterIndex s) - lsIndex s'
          < length (strs ! lsOuterIndex s) - lsIndex s"
        by arith
      with a i have "length (remaining strs s') < length (remaining strs s)"
        by (simp add: remaining_def buffer_def)
      with a show ?thesis by (simp add: that(1,2))
    qed
  qed
  show ?thesis
    apply (relation "measures [\<lambda>(strs, interps, toStr, toNumber, idStart, idContinue, st). length strs - lsOuterIndex st,
                           \<lambda>(strs, interps, toStr, toNumber, idStart, idContinue, st). length (remaining strs st)]")
    subgoal by simp
    subgoal for strs interps toStr toNumber idStart idContinue st x
      by (auto simp: pushInterpolation_def getInterpolation_def hasStrings_def pushToken_def
          split: if_splits)
    subgoal premises prems for strs interps toStr toNumber idStart idContinue st x2 b
    proof -
      from prems(3) have "quoteLoop strs interps toStr x2
          \<lparr>tokType = ''value'', tokValue = JString [], tokIndex = lsIndex (advance 1 st) - 1,
            tokOuterIndex = lsOuterIndex (advance 1 st), tokLength = 1\<rparr> (advance 1 st) = Inr b"
        by (simp add: quote_def Let_def split: if_splits)
      from Q[OF this] have "lsOuterIndex st < lsOuterIndex b
          \<or> (lsOuterIndex st = lsOuterIndex b \<and> lsIndex st < lsIndex b)"
        by (auto simp: advance_def)
      from D[OF refl refl prems(1) this] show ?thesis .
    qed
    subgoal premises prems for strs interps toStr toNumber idStart idContinue st x2 x2a x y xa
    proof -
      from prems(3,4) have pos: "0 < y" using M[of idStart idContinue "remaining strs st" x y]
        by simp
      have c: "lsOuterIndex st < lsOuterIndex (comment strs interps blk (advance y st))
          \<or> (lsOuterIndex st = lsOuterIndex (comment strs interps blk (advance y st))
             \<and> lsIndex st < lsIndex (comment strs interps blk (advance y st)))" for blk
        using C[of "advance y st" strs interps blk] pos
        by (auto simp: comment_def advance_def)
      have "lsOuterIndex st < lsOuterIndex s'
          \<or> (lsOuterIndex st = lsOuterIndex s' \<and> lsIndex st < lsIndex s')"
        if "s' = (if x = 2 then comment strs interps False (advance y st)
             else if x = 3 then comment strs interps True (advance y st)
                  else if x = 4 \<or> x = 5 \<or> x = 6 \<or> x = 7
                       then pushToken (lexeme ''value'' (toNumber xa) st y) (advance y st)
                       else if x = 8
                            then pushToken (lexeme ''identifier'' (JString xa) st y) (advance y st)
                            else if x = 9
                                 then pushToken (lexeme ''operator'' (JString xa) st y) (advance y st)
                                 else advance y st)" for s'
        using that c[of False] c[of True] pos
        by (auto simp: pushToken_def advance_def split: if_splits)
      from D[OF refl refl prems(1) this[OF refl]] show ?thesis .
    qed
    done
qed

declare mainLoop.simps [simp del]

text \<open>\<^verbatim>\<open>mainState\<close> and \<^verbatim>\<open>tokenize\<close>.\<close>

definition mainState :: "string list \<Rightarrow> jsval list \<Rightarrow> (jsval \<Rightarrow> string) \<Rightarrow> (string \<Rightarrow> jsval)
    \<Rightarrow> (char \<Rightarrow> bool) \<Rightarrow> (char \<Rightarrow> bool) \<Rightarrow> lexer_state \<Rightarrow> lexer_error + lexer_state" where
  "mainState strs interps toStr toNumber idStart idContinue st =
     (if hasStrings strs st then mainLoop strs interps toStr toNumber idStart idContinue st else Inr st)"

definition tokenize :: "(jsval \<Rightarrow> string) \<Rightarrow> (string \<Rightarrow> jsval) \<Rightarrow> (char \<Rightarrow> bool) \<Rightarrow> (char \<Rightarrow> bool)
    \<Rightarrow> string list \<Rightarrow> jsval list \<Rightarrow> lexer_error + token list" where
  "tokenize toStr toNumber idStart idContinue strs interps =
     (case mainState strs interps toStr toNumber idStart idContinue
             \<lparr>lsIndex = 0, lsOuterIndex = 0, lsTokens = []\<rparr> of
        Inl err \<Rightarrow> Inl err
      | Inr st \<Rightarrow> Inr (lsTokens st))"

text \<open>
  The tokens of a state are stamped when none of them carries a fragment index above the one
  the lexer is at.
\<close>

definition stamped :: "lexer_state \<Rightarrow> bool" where
  "stamped st = (\<forall>t \<in> set (lsTokens st). tokOuterIndex t \<le> lsOuterIndex st)"


section \<open>Notions used to state the properties\<close>

text \<open>
  The definitions of this section are not part of the program: they name what the properties
  speak about.
\<close>

definition distinct_cache :: "cache \<Rightarrow> bool" where
  "distinct_cache c = (\<forall>n s. c n = Some s \<longrightarrow> distinct s)"

fun childSets :: "rule_table \<Rightarrow> cache \<Rightarrow> simple_ast list \<Rightarrow> symbol list
    \<Rightarrow> (grammar_error + terminal list list) \<times> cache" where
  "childSets R c [] recurSet = (Inr [], c)"
| "childSets R c (e # es) recurSet =
     (case get R c e recurSet of
        (Inl err, c') \<Rightarrow> (Inl err, c')
      | (Inr s, c') \<Rightarrow>
          (case childSets R c' es recurSet of
             (Inl err, c'') \<Rightarrow> (Inl err, c'')
           | (Inr ss, c'') \<Rightarrow> (Inr (s # ss), c'')))"

definition pairwise_disjoint :: "'a list list \<Rightarrow> bool" where
  "pairwise_disjoint ss = (\<forall>i j. i < j \<longrightarrow> j < length ss \<longrightarrow> set (ss ! i) \<inter> set (ss ! j) = {})"

definition shared :: "'a \<Rightarrow> 'a list list \<Rightarrow> bool" where
  "shared t ss = (\<exists>i j. i < j \<and> j < length ss \<and> t \<in> set (ss ! i) \<and> t \<in> set (ss ! j))"

definition seq_first :: "terminal list list \<Rightarrow> terminal list" where
  "seq_first ss =
     (if ss = [] then [brandEof]
      else concat (map (removeAll brandEof) (butlast ss)) @ last ss)"


text \<open>
  The reducer the spec gives to the \<^verbatim>\<open>reduce\<close> node of a structure: the projection of the second
  argument, composed with the node's reducer when it has one. Both orders of the composition
  are written out: the reducer applied to the projected content, and the projection applied
  to the reducer's result.
\<close>

definition specStructureFn :: "host \<Rightarrow> seqfn option \<Rightarrow> jsval list \<Rightarrow> parse_error + jsval" where
  "specStructureFn h reducer args =
     (case reducer of
        None \<Rightarrow> applyFn h (Some Proj2) args
      | Some f \<Rightarrow> applyFn h (Some f) [arg args 1])"

definition specStructureFn' :: "host \<Rightarrow> seqfn option \<Rightarrow> jsval list \<Rightarrow> parse_error + jsval" where
  "specStructureFn' h reducer args =
     (case reducer of
        None \<Rightarrow> applyFn h (Some Proj2) args
      | Some f \<Rightarrow>
          (case applyFn h (Some f) args of
             Inl err \<Rightarrow> Inl err
           | Inr v \<Rightarrow> applyFn h (Some Proj2) [v]))"

text \<open>The tokens of a separated list: values, with a separator token between two of them.\<close>

definition valueToken :: "jsval \<Rightarrow> token" where
  "valueToken v = \<lparr>tokType = ''value'', tokValue = v, tokIndex = 0, tokOuterIndex = 0, tokLength = 0\<rparr>"

definition operatorToken :: "string \<Rightarrow> token" where
  "operatorToken s = \<lparr>tokType = ''operator'', tokValue = JString s, tokIndex = 0, tokOuterIndex = 0,
     tokLength = length s\<rparr>"

fun sepTokens :: "string \<Rightarrow> jsval list \<Rightarrow> token list" where
  "sepTokens s [] = []"
| "sepTokens s [v] = [valueToken v]"
| "sepTokens s (v # vs) = valueToken v # operatorToken s # sepTokens s vs"


text \<open>A parse returns: some amount of fuel is enough for it to return the result.\<close>

definition returns :: "host \<Rightarrow> (symbol \<times> parser) list \<Rightarrow> parser \<Rightarrow> parse_state
    \<Rightarrow> parse_error + parse_state \<Rightarrow> bool" where
  "returns h ps p st r = (\<exists>n. parse n h ps p st = Some r)"

definition returnsSeq :: "host \<Rightarrow> (symbol \<times> parser) list \<Rightarrow> parser list \<Rightarrow> parse_state
    \<Rightarrow> parse_error + parse_state \<Rightarrow> bool" where
  "returnsSeq h ps qs st r = (\<exists>n. parseSeq n h ps qs st = Some r)"

text \<open>
  The matcher that \<^verbatim>\<open>compile\<close> produces for the auxiliary rule of a list of values separated by
  the literal \<open>s\<close> (lemma \<open>compile_sepBy1\<close> below).
\<close>

definition sepParser :: "symbol \<Rightarrow> string \<Rightarrow> parser" where
  "sepParser r s = SeqP [MatchType ''value'',
      AltP [(brandLiteral s, SeqP [MatchLiteral s,
                AltP [(brandType ''value'', MatchRule r), (brandEof, ReduceP 0 (Some PushArrFn))],
                ReduceP 2 (Some Proj2)]),
            (brandEof, ReduceP 0 (Some PushArrFn))],
      ReduceP 2 (Some ConsFn)]"

definition identifierToken :: "string \<Rightarrow> token" where
  "identifierToken s = \<lparr>tokType = ''identifier'', tokValue = JString s, tokIndex = 0,
     tokOuterIndex = 0, tokLength = length s\<rparr>"

text \<open>
  \<open>p\<close> is a matcher that \<^verbatim>\<open>compile\<close> produces for the node \<open>e\<close>, in some state of the first-set
  cache.
\<close>

definition compiles :: "rule_table \<Rightarrow> simple_ast \<Rightarrow> parser \<Rightarrow> bool" where
  "compiles R e p = (\<exists>c c'. compile R c e = (Inr p, c'))"

text \<open>
  The entries of the dispatch table that follows the item in the matcher of a list rule \<open>r\<close>:
  each one either pushes the empty list, or matches the separator and then dispatches to the
  rule \<open>r\<close> again or to the empty list.
\<close>

definition listEntries :: "rule_table \<Rightarrow> symbol \<Rightarrow> simple_ast \<Rightarrow> (terminal \<times> parser) list \<Rightarrow> bool" where
  "listEntries R r sep m1 =
     (\<forall>x \<in> set m1. snd x = ReduceP 0 (Some PushArrFn) \<or>
        (\<exists>pSep m2. snd x = SeqP [pSep, AltP m2, ReduceP 2 (Some Proj2)] \<and> compiles R sep pSep \<and>
           (\<forall>y \<in> set m2. snd y = MatchRule r \<or> snd y = ReduceP 0 (Some PushArrFn))))"

text \<open>
  The items of a list in the input, for any item matcher \<open>pItem\<close> and any dispatch table \<open>m1\<close>
  after it. \<open>listMatch h ps r pItem m1 st vs s'\<close>: from the state \<open>st\<close> the item matcher and the
  separator matchers that the tables choose match in turn, each pushing one value, the items
  pushing the values \<open>vs\<close> in this order, and the last of them leaves the state \<open>s'\<close>. The list
  ends after an item where the table chooses the empty list, or after a separator where the
  table does; it goes on after a separator where the table chooses the rule \<open>r\<close>.
\<close>

inductive listMatch :: "host \<Rightarrow> (symbol \<times> parser) list \<Rightarrow> symbol \<Rightarrow> parser \<Rightarrow> (terminal \<times> parser) list
    \<Rightarrow> parse_state \<Rightarrow> jsval list \<Rightarrow> parse_state \<Rightarrow> bool"
  for h ps r pItem m1
where
  single:
    "returns h ps pItem st (Inr s1) \<Longrightarrow> psResults s1 = psResults st @ [v]
     \<Longrightarrow> altLookup m1 (peek s1) = Some (ReduceP 0 (Some PushArrFn))
     \<Longrightarrow> listMatch h ps r pItem m1 st [v] s1"
| trailing:
    "returns h ps pItem st (Inr s1) \<Longrightarrow> psResults s1 = psResults st @ [v]
     \<Longrightarrow> altLookup m1 (peek s1) = Some (SeqP [pSep, AltP m2, ReduceP 2 (Some Proj2)])
     \<Longrightarrow> returns h ps pSep s1 (Inr s2) \<Longrightarrow> psResults s2 = psResults s1 @ [w]
     \<Longrightarrow> altLookup m2 (peek s2) = Some (ReduceP 0 (Some PushArrFn))
     \<Longrightarrow> listMatch h ps r pItem m1 st [v] s2"
| more:
    "returns h ps pItem st (Inr s1) \<Longrightarrow> psResults s1 = psResults st @ [v]
     \<Longrightarrow> altLookup m1 (peek s1) = Some (SeqP [pSep, AltP m2, ReduceP 2 (Some Proj2)])
     \<Longrightarrow> returns h ps pSep s1 (Inr s2) \<Longrightarrow> psResults s2 = psResults s1 @ [w]
     \<Longrightarrow> altLookup m2 (peek s2) = Some (MatchRule r)
     \<Longrightarrow> listMatch h ps r pItem m1 s2 vs s3
     \<Longrightarrow> listMatch h ps r pItem m1 st (v # vs) s3"

text \<open>A matcher that, whenever it returns normally, has pushed one value on the stack it found.\<close>

definition oneValue :: "host \<Rightarrow> (symbol \<times> parser) list \<Rightarrow> parser \<Rightarrow> bool" where
  "oneValue h ps p =
     (\<forall>n s s1. parse n h ps p s = Some (Inr s1) \<longrightarrow> (\<exists>v. psResults s1 = psResults s @ [v]))"


section \<open>Properties of the first-set analyzer\<close>

lemma addAll_Inr_iff:
  "addAll mk s acc = Inr res \<longleftrightarrow> distinct s \<and> set s \<inter> set acc = {} \<and> res = acc @ s"
  by (induction s arbitrary: acc) (auto simp: setAdd_def)

lemma addAll_Inl:
  "addAll mk s acc = Inl err \<Longrightarrow> distinct s \<Longrightarrow> \<exists>t. err = mk t \<and> t \<in> set s \<and> t \<in> set acc"
proof (induction s arbitrary: acc)
  case Nil
  then show ?case by simp
next
  case (Cons a s)
  show ?case
  proof (cases "a \<in> set acc")
    case True
    then show ?thesis using Cons.prems by auto
  next
    case False
    then have "addAll mk s (acc @ [a]) = Inl err"
      using Cons.prems by (simp add: setAdd_def)
    from Cons.IH[OF this] Cons.prems(2)
    obtain t where "err = mk t" "t \<in> set s" "t \<in> set (acc @ [a])" by auto
    then show ?thesis using Cons.prems(2) by auto
  qed
qed

lemma addAll_cases:
  "(\<exists>res. addAll mk s acc = Inr res) \<or> (\<exists>t. addAll mk s acc = Inl (mk t))"
  by (induction s arbitrary: acc) (auto simp: setAdd_def)

lemma get_mono:
  "get R c n rs = (r, c') \<Longrightarrow> c \<subseteq>\<^sub>m c'"
  "getInner R c n rs = (r, c') \<Longrightarrow> c \<subseteq>\<^sub>m c'"
  "seqLoop R c es acc rs = (r, c') \<Longrightarrow> c \<subseteq>\<^sub>m c'"
  "altLoop R c es acc rs = (r, c') \<Longrightarrow> c \<subseteq>\<^sub>m c'"
proof (induction R c n rs and R c n rs and R c es acc rs and R c es acc rs
    arbitrary: r c' and r c' and r c' and r c' rule: get_getInner_seqLoop_altLoop.induct)
  case (1 R c node recurSet)
  show ?case
  proof (cases "c node")
    case None
    obtain r1 c1 where g: "getInner R c node recurSet = (r1, c1)" by force
    from "1.IH"[OF None g] have "c \<subseteq>\<^sub>m c1" .
    moreover have "c1 \<subseteq>\<^sub>m c' \<or> c' = c1 \<or> (\<exists>res. c' = c1(node \<mapsto> res))"
      using "1.prems" None g by (auto simp: get.simps split: sum.splits)
    ultimately show ?thesis using None
      by (auto simp: map_le_def dom_def)
  next
    case (Some s)
    then show ?thesis using "1.prems" by (simp add: get.simps)
  qed
next
  case (7 R c e recurSet)
  then show ?case by (auto split: prod.splits sum.splits if_splits)
next
  case (11 R c e es acc recurSet)
  then show ?case 
    by (auto split: prod.splits sum.splits if_splits intro: map_le_trans)
next
  case (13 R c e es acc recurSet)
  then show ?case 
    by (auto split: prod.splits sum.splits if_splits intro: map_le_trans)
qed (auto split: option.splits if_splits)

lemma distinct_newSet: "distinct (newSet xs)"
  by (simp add: newSet_def)

lemma newSet_distinct: "distinct xs \<Longrightarrow> newSet xs = xs"
  by (simp add: newSet_def distinct_remdups_id)

lemma get_distinct:
  "get R c n rs = (r, c') \<Longrightarrow> distinct_cache c \<Longrightarrow> distinct_cache c' \<and> (\<forall>s. r = Inr s \<longrightarrow> distinct s)"
  "getInner R c n rs = (r, c') \<Longrightarrow> distinct_cache c \<Longrightarrow> distinct_cache c' \<and> (\<forall>s. r = Inr s \<longrightarrow> distinct s)"
  "seqLoop R c es acc rs = (r, c') \<Longrightarrow> distinct_cache c \<Longrightarrow> distinct acc \<Longrightarrow> distinct_cache c' \<and> (\<forall>s. r = Inr s \<longrightarrow> distinct s)"
  "altLoop R c es acc rs = (r, c') \<Longrightarrow> distinct_cache c \<Longrightarrow> distinct acc \<Longrightarrow> distinct_cache c' \<and> (\<forall>s. r = Inr s \<longrightarrow> distinct s)"
proof (induction R c n rs and R c n rs and R c es acc rs and R c es acc rs
    arbitrary: r c' and r c' and r c' and r c' rule: get_getInner_seqLoop_altLoop.induct)
  case (1 R c node recurSet)
  show ?case
  proof (cases "c node")
    case None
    obtain r1 c1 where g: "getInner R c node recurSet = (r1, c1)" by force
    from "1.IH"[OF None g "1.prems"(2)]
    have ih: "distinct_cache c1" "\<forall>s. r1 = Inr s \<longrightarrow> distinct s" by auto
    show ?thesis
      using "1.prems"(1) None g ih
      by (auto simp: get.simps distinct_cache_def split: sum.splits if_splits)
  next
    case (Some s)
    then show ?thesis using "1.prems" by (auto simp: get.simps distinct_cache_def)
  qed
next
  case (7 R c e recurSet)
  obtain r1 c1 where g: "get R c e recurSet = (r1, c1)" by force
  from "7.IH"[OF g "7.prems"(2)] show ?case
    using "7.prems"(1) g by (auto simp: distinct_newSet split: sum.splits if_splits)
next
  case (11 R c e es acc recurSet)
  obtain r1 c1 where g: "get R c e recurSet = (r1, c1)" by force
  from "11.IH"(1)[OF g "11.prems"(2)]
  have ih: "distinct_cache c1" "\<forall>s. r1 = Inr s \<longrightarrow> distinct s" by auto
  show ?case
  proof (cases r1)
    case (Inl err)
    then show ?thesis using "11.prems"(1) g ih by auto
  next
    case (Inr s)
    show ?thesis
    proof (cases "addAll FirstFollowConflict s (setDelete brandEof acc)")
      case (Inl err)
      then show ?thesis using "11.prems"(1) g ih Inr by auto
    next
      case (Inr acc')
      then have d: "distinct acc'"
        using "11.prems"(3) by (auto simp: addAll_Inr_iff setDelete_def distinct_removeAll)
      show ?thesis
      proof (cases "brandEof \<in> set acc'")
        case True
        then have nn: "\<not> brandEof \<notin> set acc'" by simp
        have l: "seqLoop R c1 es acc' recurSet = (r, c')"
          using "11.prems"(1) g \<open>r1 = Inr s\<close> Inr True by simp
        from "11.IH"(2)[OF g[symmetric] \<open>r1 = Inr s\<close> Inr nn l ih(1) d]
        show ?thesis .
      next
        case False
        then show ?thesis using "11.prems"(1) g \<open>r1 = Inr s\<close> Inr ih d by auto
      qed
    qed
  qed
next
  case (13 R c e es acc recurSet)
  obtain r1 c1 where g: "get R c e recurSet = (r1, c1)" by force
  from "13.IH"(1)[OF g "13.prems"(2)]
  have ih: "distinct_cache c1" "\<forall>s. r1 = Inr s \<longrightarrow> distinct s" by auto
  show ?case
  proof (cases r1)
    case (Inl err)
    then show ?thesis using "13.prems"(1) g ih by auto
  next
    case (Inr s)
    show ?thesis
    proof (cases "addAll FirstFirstConflict s acc")
      case (Inl err)
      then show ?thesis using "13.prems"(1) g ih Inr by auto
    next
      case (Inr acc')
      then have d: "distinct acc'"
        using "13.prems"(3) by (auto simp: addAll_Inr_iff)
      have l: "altLoop R c1 es acc' recurSet = (r, c')"
        using "13.prems"(1) g \<open>r1 = Inr s\<close> Inr by simp
      from "13.IH"(2)[OF g[symmetric] \<open>r1 = Inr s\<close> Inr l ih(1) d]
      show ?thesis .
    qed
  qed
next
  case (6 R c v recurSet)
  show ?case
  proof (cases "v \<in> set recurSet")
    case True
    then show ?thesis using "6.prems" by auto
  next
    case False
    show ?thesis
    proof (cases "map_of R v")
      case None
      then show ?thesis using False "6.prems" by auto
    next
      case (Some b)
      then have "get R c b (newSet (recurSet @ [v])) = (r, c')"
        using False "6.prems"(1) by simp
      from "6.IH"[OF False Some this "6.prems"(2)] show ?thesis .
    qed
  qed
next
  case (8 R c es recurSet)
  then show ?case by simp
next
  case (9 R c es recurSet)
  then show ?case by simp
qed auto

lemma pairwise_disjoint_Cons:
  "pairwise_disjoint (s # ss) \<longleftrightarrow> set s \<inter> set (concat ss) = {} \<and> pairwise_disjoint ss"
proof
  assume a: "pairwise_disjoint (s # ss)"
  have h: "set s \<inter> set (ss ! j) = {}" if "j < length ss" for j
    using a[unfolded pairwise_disjoint_def, rule_format, of 0 "Suc j"] that by simp
  have 1: "set s \<inter> set (concat ss) = {}"
  proof (rule ccontr)
    assume "set s \<inter> set (concat ss) \<noteq> {}"
    then obtain x ys where x: "x \<in> set s" "ys \<in> set ss" "x \<in> set ys" by auto
    then obtain j where "j < length ss" "ss ! j = ys" by (auto simp: in_set_conv_nth)
    with h[of j] x show False by auto
  qed
  have "set (ss ! i) \<inter> set (ss ! j) = {}" if "i < j" "j < length ss" for i j
    using a[unfolded pairwise_disjoint_def, rule_format, of "Suc i" "Suc j"] that by simp
  then show "set s \<inter> set (concat ss) = {} \<and> pairwise_disjoint ss"
    using 1 by (simp add: pairwise_disjoint_def)
next
  assume a: "set s \<inter> set (concat ss) = {} \<and> pairwise_disjoint ss"
  show "pairwise_disjoint (s # ss)"
    unfolding pairwise_disjoint_def
  proof (intro allI impI)
    fix i j assume ij: "i < j" "j < length (s # ss)"
    then obtain j' where j': "j = Suc j'" by (cases j) auto
    show "set ((s # ss) ! i) \<inter> set ((s # ss) ! j) = {}"
    proof (cases i)
      case 0
      have "ss ! j' \<in> set ss" using ij j' by simp
      then have "set (ss ! j') \<subseteq> set (concat ss)" by auto
      then show ?thesis using a 0 j' by auto
    next
      case (Suc i')
      then show ?thesis using a ij j' by (simp add: pairwise_disjoint_def)
    qed
  qed
qed

lemma shared_Cons:
  "shared t (s # ss) \<longleftrightarrow> (t \<in> set s \<and> t \<in> set (concat ss)) \<or> shared t ss"
proof
  assume "shared t (s # ss)"
  then obtain i j where ij: "i < j" "j < length (s # ss)" "t \<in> set ((s # ss) ! i)" "t \<in> set ((s # ss) ! j)"
    by (auto simp: shared_def)
  then obtain j' where j': "j = Suc j'" by (cases j) auto
  show "(t \<in> set s \<and> t \<in> set (concat ss)) \<or> shared t ss"
  proof (cases i)
    case 0
    then show ?thesis using ij j' by auto
  next
    case (Suc i')
    then have "i' < j' \<and> j' < length ss \<and> t \<in> set (ss ! i') \<and> t \<in> set (ss ! j')"
      using ij j' by simp
    then show ?thesis unfolding shared_def by blast
  qed
next
  assume "(t \<in> set s \<and> t \<in> set (concat ss)) \<or> shared t ss"
  then show "shared t (s # ss)"
  proof
    assume a: "t \<in> set s \<and> t \<in> set (concat ss)"
    then obtain ys where "ys \<in> set ss" "t \<in> set ys" by auto
    then obtain j where "j < length ss" "t \<in> set (ss ! j)"
      by (auto simp: in_set_conv_nth)
    then have "0 < Suc j \<and> Suc j < length (s # ss) \<and> t \<in> set ((s # ss) ! 0) \<and> t \<in> set ((s # ss) ! Suc j)"
      using a by simp
    then show ?thesis unfolding shared_def by blast
  next
    assume "shared t ss"
    then obtain i j where "i < j" "j < length ss" "t \<in> set (ss ! i)" "t \<in> set (ss ! j)"
      by (auto simp: shared_def)
    then have "Suc i < Suc j \<and> Suc j < length (s # ss) \<and> t \<in> set ((s # ss) ! Suc i) \<and> t \<in> set ((s # ss) ! Suc j)"
      by simp
    then show ?thesis unfolding shared_def by blast
  qed
qed

lemma not_disjoint_shared: "\<not> pairwise_disjoint ss \<longleftrightarrow> (\<exists>t. shared t ss)"
  by (auto simp: pairwise_disjoint_def shared_def)

lemma altLoop_success:
  "altLoop R c es acc rs = (Inr res, c') \<Longrightarrow>
     \<exists>ss. childSets R c es rs = (Inr ss, c') \<and> res = acc @ concat ss
        \<and> set acc \<inter> set (concat ss) = {} \<and> pairwise_disjoint ss"
proof (induction es arbitrary: acc c)
  case Nil
  then show ?case by (simp add: pairwise_disjoint_def)
next
  case (Cons e es)
  obtain r1 c1 where g: "get R c e rs = (r1, c1)" by force
  with Cons.prems obtain s where r1: "r1 = Inr s" by (cases r1) auto
  with Cons.prems g obtain acc' where a: "addAll FirstFirstConflict s acc = Inr acc'"
    by (cases "addAll FirstFirstConflict s acc") auto
  with Cons.prems g r1 have l: "altLoop R c1 es acc' rs = (Inr res, c')" by simp
  from Cons.IH[OF l] obtain ss where ss: "childSets R c1 es rs = (Inr ss, c')"
    "res = acc' @ concat ss" "set acc' \<inter> set (concat ss) = {}" "pairwise_disjoint ss" by blast
  from a have a': "distinct s" "set s \<inter> set acc = {}" "acc' = acc @ s"
    by (auto simp: addAll_Inr_iff)
  have "childSets R c (e # es) rs = (Inr (s # ss), c')"
    using g r1 ss(1) by simp
  moreover have "res = acc @ concat (s # ss)" using ss(2) a'(3) by simp
  moreover have "set acc \<inter> set (concat (s # ss)) = {}" using ss(3) a' by auto
  moreover have "pairwise_disjoint (s # ss)"
    using ss(3,4) a'(3) by (auto simp: pairwise_disjoint_Cons)
  ultimately show ?case by blast
qed

lemma altLoop_of_childSets:
  assumes "childSets R c es rs = (Inr ss, c1)" and "\<forall>s\<in>set ss. distinct s"
  shows "(set acc \<inter> set (concat ss) = {} \<and> pairwise_disjoint ss
            \<longrightarrow> altLoop R c es acc rs = (Inr (acc @ concat ss), c1))
       \<and> (\<not> (set acc \<inter> set (concat ss) = {} \<and> pairwise_disjoint ss)
            \<longrightarrow> (\<exists>t. fst (altLoop R c es acc rs) = Inl (FirstFirstConflict t)
                   \<and> ((t \<in> set acc \<and> t \<in> set (concat ss)) \<or> shared t ss)))"
  using assms
proof (induction es arbitrary: acc c ss)
  case Nil
  then show ?case by (auto simp: pairwise_disjoint_def)
next
  case (Cons e es)
  obtain r1 c2 where g: "get R c e rs = (r1, c2)" by force
  with Cons.prems(1) obtain s where r1: "r1 = Inr s" by (cases r1) auto
  obtain r2 c3 where cs: "childSets R c2 es rs = (r2, c3)" by force
  with Cons.prems(1) g r1 obtain ss' where r2: "r2 = Inr ss'" by (cases r2) auto
  with Cons.prems(1) g r1 cs have ss: "ss = s # ss'" and c3: "c3 = c1" by auto
  have ds: "distinct s" and dss: "\<forall>s\<in>set ss'. distinct s" using Cons.prems(2) ss by auto
  show ?case
  proof (cases "set s \<inter> set acc = {}")
    case True
    then have a: "addAll FirstFirstConflict s acc = Inr (acc @ s)"
      using ds by (simp add: addAll_Inr_iff)
    have step: "altLoop R c (e # es) acc rs = altLoop R c2 es (acc @ s) rs"
      using g r1 a by simp
    note ih = Cons.IH[OF cs[unfolded r2 c3] dss, of "acc @ s"]
    have eq: "(set acc \<inter> set (concat ss) = {} \<and> pairwise_disjoint ss) \<longleftrightarrow>
       (set (acc @ s) \<inter> set (concat ss') = {} \<and> pairwise_disjoint ss')"
      using True unfolding ss by (auto simp: pairwise_disjoint_Cons)
    show ?thesis
    proof (cases "set acc \<inter> set (concat ss) = {} \<and> pairwise_disjoint ss")
      case good: True
      then show ?thesis using ih eq step ss by auto
    next
      case bad: False
      with ih eq obtain t where t: "fst (altLoop R c2 es (acc @ s) rs) = Inl (FirstFirstConflict t)"
        "(t \<in> set (acc @ s) \<and> t \<in> set (concat ss')) \<or> shared t ss'" by blast
      have "(t \<in> set acc \<and> t \<in> set (concat ss)) \<or> shared t ss"
        using t(2) unfolding ss by (auto simp: shared_Cons)
      then show ?thesis using bad t(1) step by auto
    qed
  next
    case False
    then obtain err where "addAll FirstFirstConflict s acc = Inl err"
      by (cases "addAll FirstFirstConflict s acc") (auto simp: addAll_Inr_iff)
    from this addAll_Inl[OF this ds] obtain t where
      t: "addAll FirstFirstConflict s acc = Inl (FirstFirstConflict t)" "t \<in> set s" "t \<in> set acc"
      by auto
    have "fst (altLoop R c (e # es) acc rs) = Inl (FirstFirstConflict t)"
      using g r1 t(1) by simp
    moreover have "t \<in> set acc \<and> t \<in> set (concat ss)" using t ss by simp
    ultimately show ?thesis using False ss by auto
  qed
qed

lemma childSets_distinct:
  "childSets R c es rs = (Inr ss, c') \<Longrightarrow> distinct_cache c \<Longrightarrow>
     distinct_cache c' \<and> (\<forall>s\<in>set ss. distinct s)"
proof (induction es arbitrary: c ss)
  case Nil
  then show ?case by auto
next
  case (Cons e es)
  obtain r1 c1 where g: "get R c e rs = (r1, c1)" by force
  with Cons.prems(1) obtain s where r1: "r1 = Inr s" by (cases r1) auto
  obtain r2 c2 where cs: "childSets R c1 es rs = (r2, c2)" by force
  with Cons.prems(1) g r1 obtain ss' where r2: "r2 = Inr ss'" by (cases r2) auto
  with Cons.prems(1) g r1 cs have ss: "ss = s # ss'" and c2: "c2 = c'" by auto
  from get_distinct(1)[OF g Cons.prems(2)] r1 have d1: "distinct_cache c1" "distinct s" by auto
  from Cons.IH[OF cs[unfolded r2 c2] d1(1)] d1(2) ss show ?case by auto
qed

lemma childSets_take:
  "fst (childSets R c es rs) = Inr ss \<Longrightarrow> fst (childSets R c (take k es) rs) = Inr (take k ss)"
proof (induction es arbitrary: c ss k)
  case Nil
  then show ?case by auto
next
  case (Cons e es)
  obtain r1 c1 where g: "get R c e rs = (r1, c1)" by force
  with Cons.prems(1) obtain s where r1: "r1 = Inr s" by (cases r1) auto
  obtain r2 c2 where cs: "childSets R c1 es rs = (r2, c2)" by force
  with Cons.prems(1) g r1 obtain ss' where r2: "r2 = Inr ss'" by (cases r2) auto
  with Cons.prems(1) g r1 cs have ss: "ss = s # ss'" by auto
  show ?case
  proof (cases k)
    case 0
    then show ?thesis by simp
  next
    case (Suc k')
    have "fst (childSets R c1 (take k' es) rs) = Inr (take k' ss')"
      using Cons.IH[of c1 ss' k'] cs r2 by simp
    then show ?thesis using Suc g r1 ss
      by (auto split: prod.splits sum.splits)
  qed
qed

lemma childSets_length:
  "childSets R c es rs = (Inr ss, c') \<Longrightarrow> length ss = length es"
  by (induction es arbitrary: c ss) (auto split: prod.splits sum.splits)

lemma seqLoop_step:
  assumes "get R c e rs = (Inr s, c')" and "distinct s"
  shows "(set s \<inter> set (setDelete brandEof acc) \<noteq> {} \<longrightarrow>
            (\<exists>t. t \<in> set s \<and> t \<in> set (setDelete brandEof acc) \<and>
               seqLoop R c (e # es) acc rs = (Inl (FirstFollowConflict t), c')))
       \<and> (set s \<inter> set (setDelete brandEof acc) = {} \<longrightarrow>
            seqLoop R c (e # es) acc rs =
              (if brandEof \<in> set s then seqLoop R c' es (setDelete brandEof acc @ s) rs
               else (Inr (setDelete brandEof acc @ s), c')))"
proof (cases "set s \<inter> set (setDelete brandEof acc) = {}")
  case True
  then have "addAll FirstFollowConflict s (setDelete brandEof acc) = Inr (setDelete brandEof acc @ s)"
    using assms(2) by (simp add: addAll_Inr_iff)
  then show ?thesis using True assms(1) by (auto simp: setDelete_def)
next
  case False
  then obtain err where e: "addAll FirstFollowConflict s (setDelete brandEof acc) = Inl err"
    by (cases "addAll FirstFollowConflict s (setDelete brandEof acc)") (auto simp: addAll_Inr_iff)
  from addAll_Inl[OF e assms(2)] obtain t where
    "err = FirstFollowConflict t" "t \<in> set s" "t \<in> set (setDelete brandEof acc)" by auto
  then show ?thesis using False e assms(1) by auto
qed

lemma seqLoop_success:
  "seqLoop R c es acc rs = (Inr res, c') \<Longrightarrow>
     (es = [] \<and> res = acc \<and> c' = c) \<or>
     (\<exists>k ss. 0 < k \<and> k \<le> length es \<and> length ss = k
        \<and> childSets R c (take k es) rs = (Inr ss, c')
        \<and> (\<forall>s\<in>set (butlast ss). brandEof \<in> set s)
        \<and> (k < length es \<longrightarrow> brandEof \<notin> set (last ss))
        \<and> res = removeAll brandEof acc @ concat (map (removeAll brandEof) (butlast ss)) @ last ss
        \<and> (distinct acc \<longrightarrow> distinct res))"
proof (induction es arbitrary: acc c)
  case Nil
  then show ?case by simp
next
  case (Cons e es)
  obtain r1 c1 where g: "get R c e rs = (r1, c1)" by force
  with Cons.prems obtain s where r1: "r1 = Inr s" by (cases r1) auto
  with Cons.prems g obtain acc' where a: "addAll FirstFollowConflict s (setDelete brandEof acc) = Inr acc'"
    by (cases "addAll FirstFollowConflict s (setDelete brandEof acc)") auto
  then have a': "distinct s" "set s \<inter> set (removeAll brandEof acc) = {}" "acc' = removeAll brandEof acc @ s"
    by (auto simp: addAll_Inr_iff setDelete_def)
  have dacc': "distinct acc \<longrightarrow> distinct acc'"
    using a' by (auto simp: distinct_removeAll)
  show ?case
  proof (cases "brandEof \<in> set acc'")
    case False
    then have "res = acc'" "c' = c1" using Cons.prems g r1 a by auto
    moreover have "childSets R c (take 1 (e # es)) rs = (Inr [s], c1)" using g r1 by simp
    moreover have "brandEof \<notin> set s" using False a'(3) by simp
    ultimately have "0 < (1::nat) \<and> 1 \<le> length (e # es) \<and> length [s] = 1
        \<and> childSets R c (take 1 (e # es)) rs = (Inr [s], c')
        \<and> (\<forall>s\<in>set (butlast [s]). brandEof \<in> set s)
        \<and> (1 < length (e # es) \<longrightarrow> brandEof \<notin> set (last [s]))
        \<and> res = removeAll brandEof acc @ concat (map (removeAll brandEof) (butlast [s])) @ last [s]
        \<and> (distinct acc \<longrightarrow> distinct res)"
      using a'(3) dacc' by simp
    then show ?thesis by blast
  next
    case True
    then have eof_s: "brandEof \<in> set s" using a'(3) by simp
    have l: "seqLoop R c1 es acc' rs = (Inr res, c')" using Cons.prems g r1 a True by simp
    from Cons.IH[OF l] show ?thesis
    proof
      assume "es = [] \<and> res = acc' \<and> c' = c1"
      then have "0 < (1::nat) \<and> 1 \<le> length (e # es) \<and> length [s] = 1
        \<and> childSets R c (take 1 (e # es)) rs = (Inr [s], c')
        \<and> (\<forall>s\<in>set (butlast [s]). brandEof \<in> set s)
        \<and> (1 < length (e # es) \<longrightarrow> brandEof \<notin> set (last [s]))
        \<and> res = removeAll brandEof acc @ concat (map (removeAll brandEof) (butlast [s])) @ last [s]
        \<and> (distinct acc \<longrightarrow> distinct res)"
        using g r1 a'(3) dacc' by simp
      then show ?thesis by blast
    next
      assume "\<exists>k ss. 0 < k \<and> k \<le> length es \<and> length ss = k
        \<and> childSets R c1 (take k es) rs = (Inr ss, c')
        \<and> (\<forall>s\<in>set (butlast ss). brandEof \<in> set s)
        \<and> (k < length es \<longrightarrow> brandEof \<notin> set (last ss))
        \<and> res = removeAll brandEof acc' @ concat (map (removeAll brandEof) (butlast ss)) @ last ss
        \<and> (distinct acc' \<longrightarrow> distinct res)"
      then obtain k ss where k: "0 < k" "k \<le> length es" "length ss = k"
        "childSets R c1 (take k es) rs = (Inr ss, c')"
        "\<forall>s\<in>set (butlast ss). brandEof \<in> set s"
        "k < length es \<longrightarrow> brandEof \<notin> set (last ss)"
        "res = removeAll brandEof acc' @ concat (map (removeAll brandEof) (butlast ss)) @ last ss"
        "distinct acc' \<longrightarrow> distinct res" by blast
      have ne: "ss \<noteq> []" using k(1,3) by auto
      have "0 < Suc k \<and> Suc k \<le> length (e # es) \<and> length (s # ss) = Suc k
        \<and> childSets R c (take (Suc k) (e # es)) rs = (Inr (s # ss), c')
        \<and> (\<forall>s\<in>set (butlast (s # ss)). brandEof \<in> set s)
        \<and> (Suc k < length (e # es) \<longrightarrow> brandEof \<notin> set (last (s # ss)))
        \<and> res = removeAll brandEof acc @ concat (map (removeAll brandEof) (butlast (s # ss))) @ last (s # ss)
        \<and> (distinct acc \<longrightarrow> distinct res)"
        using k g r1 ne eof_s a'(3) dacc' by simp
      then show ?thesis by blast
    qed
  qed
qed

lemma fst_eqD: "fst x = a \<Longrightarrow> \<exists>b. x = (a, b)"
  by (cases x) simp

text \<open>
  Claim C2. Take an \<^verbatim>\<open>alt\<close> node that the analyzer has not cached yet. If its analysis
  (\<^verbatim>\<open>get\<close>) or its compilation returns, the first-sets of its branches, computed in order,
  are pairwise disjoint and the node's first-set is their concatenation. If the branches have
  first-sets and a terminal occurs in two of them, the analysis and the compilation of the
  node fail with a first/first conflict that names a terminal shared by two branches.
\<close>

theorem alt_first_first_conflict:
  assumes "distinct_cache c" and "c (Alt es) = None"
  shows "(\<forall>res. fst (get R c (Alt es) rs) = Inr res \<longrightarrow>
            (\<exists>ss. fst (childSets R c es rs) = Inr ss \<and> pairwise_disjoint ss \<and> res = concat ss))
       \<and> (\<forall>p. fst (compile R c (Alt es)) = Inr p \<longrightarrow>
            (\<exists>ss. fst (childSets R c es []) = Inr ss \<and> pairwise_disjoint ss))
       \<and> (\<forall>ss t. fst (childSets R c es rs) = Inr ss \<and> shared t ss \<longrightarrow>
            (\<exists>t'. shared t' ss \<and> fst (get R c (Alt es) rs) = Inl (FirstFirstConflict t')))
       \<and> (\<forall>ss t. fst (childSets R c es []) = Inr ss \<and> shared t ss \<longrightarrow>
            (\<exists>t'. shared t' ss \<and> fst (compile R c (Alt es)) = Inl (FirstFirstConflict t')))"
proof -
  have ok: "\<exists>ss. fst (childSets R c es rs') = Inr ss \<and> pairwise_disjoint ss \<and> res = concat ss"
    if "fst (get R c (Alt es) rs') = Inr res" for rs' res
  proof -
    obtain r1 c1 where l: "altLoop R c es [] rs' = (r1, c1)" by force
    with that assms(2) have "r1 = Inr res" by (auto simp: get.simps split: sum.splits)
    from altLoop_success[OF l[unfolded this]] show ?thesis by auto
  qed
  have bad: "\<exists>t'. shared t' ss \<and> fst (get R c (Alt es) rs') = Inl (FirstFirstConflict t')"
    if "fst (childSets R c es rs') = Inr ss" "shared t ss" for rs' ss t
  proof -
    from fst_eqD[OF that(1)] obtain c1 where cs: "childSets R c es rs' = (Inr ss, c1)" by blast
    from childSets_distinct[OF cs assms(1)] have d: "\<forall>s\<in>set ss. distinct s" by simp
    have "\<not> pairwise_disjoint ss" using that(2) not_disjoint_shared by blast
    with altLoop_of_childSets[OF cs d, of "[]"] obtain t' where
      t': "fst (altLoop R c es [] rs') = Inl (FirstFirstConflict t')" "shared t' ss" by auto
    obtain r1 c2 where l: "altLoop R c es [] rs' = (r1, c2)" by force
    with t'(1) have "fst (get R c (Alt es) rs') = Inl (FirstFirstConflict t')"
      using assms(2) by (simp add: get.simps)
    with t'(2) show ?thesis by blast
  qed
  have compE: "fst (compile R c (Alt es)) = Inr p \<Longrightarrow> \<exists>res. fst (get R c (Alt es) []) = Inr res" for p
    by (auto split: prod.splits sum.splits)
  have compI: "fst (get R c (Alt es) []) = Inl err \<Longrightarrow> fst (compile R c (Alt es)) = Inl err" for err
    by (auto split: prod.splits sum.splits)
  show ?thesis
  proof (intro conjI allI impI)
    fix res
    assume "fst (get R c (Alt es) rs) = Inr res"
    then show "\<exists>ss. fst (childSets R c es rs) = Inr ss \<and> pairwise_disjoint ss \<and> res = concat ss"
      by (rule ok)
  next
    fix p
    assume "fst (compile R c (Alt es)) = Inr p"
    from compE[OF this] obtain res where "fst (get R c (Alt es) []) = Inr res" by blast
    from ok[OF this] show "\<exists>ss. fst (childSets R c es []) = Inr ss \<and> pairwise_disjoint ss"
      by blast
  next
    fix ss t
    assume "fst (childSets R c es rs) = Inr ss \<and> shared t ss"
    then show "\<exists>t'. shared t' ss \<and> fst (get R c (Alt es) rs) = Inl (FirstFirstConflict t')"
      using bad by blast
  next
    fix ss t
    assume "fst (childSets R c es []) = Inr ss \<and> shared t ss"
    then obtain t' where t': "shared t' ss"
        "fst (get R c (Alt es) []) = Inl (FirstFirstConflict t')"
      using bad by blast
    from compI[OF t'(2)] t'(1)
    show "\<exists>t'. shared t' ss \<and> fst (compile R c (Alt es)) = Inl (FirstFirstConflict t')"
      by blast
  qed
qed

theorem alt_first_first_conflict_witness:
  "distinct_cache Map.empty
   \<and> (Map.empty :: cache) (Alt [Seq [Literal ''x'', Literal ''y'', Reduce 2 None],
                               Seq [Literal ''x'', Literal ''z'', Reduce 2 None]]) = None
   \<and> fst (childSets [] Map.empty [Seq [Literal ''x'', Literal ''y'', Reduce 2 None],
                                  Seq [Literal ''x'', Literal ''z'', Reduce 2 None]] [])
       = Inr [[brandLiteral ''x''], [brandLiteral ''x'']]
   \<and> shared (brandLiteral ''x'') [[brandLiteral ''x''], [brandLiteral ''x'']]
   \<and> (\<exists>t'. shared t' [[brandLiteral ''x''], [brandLiteral ''x'']]
         \<and> fst (compile [] Map.empty (Alt [Seq [Literal ''x'', Literal ''y'', Reduce 2 None],
                                  Seq [Literal ''x'', Literal ''z'', Reduce 2 None]]))
           = Inl (FirstFirstConflict t'))"
proof -
  let ?es = "[Seq [Literal ''x'', Literal ''y'', Reduce 2 None],
              Seq [Literal ''x'', Literal ''z'', Reduce 2 None]]"
  let ?ss = "[[brandLiteral ''x''], [brandLiteral ''x'']]"
  have h1: "distinct_cache Map.empty" by (simp add: distinct_cache_def)
  have h2: "(Map.empty :: cache) (Alt ?es) = None" by simp
  have h3: "fst (childSets [] Map.empty ?es []) = Inr ?ss"
    by (simp add: get.simps brandLiteral_def brandEof_def setDelete_def setAdd_def)
  have h4: "shared (brandLiteral ''x'') ?ss"
    unfolding shared_def by (rule exI[of _ 0], rule exI[of _ 1]) simp
  from alt_first_first_conflict[where c = Map.empty and es = ?es and R = "[]" and rs = "[]", OF h1 h2]
    h3 h4
  have "\<exists>t'. shared t' ?ss \<and> fst (compile [] Map.empty (Alt ?es)) = Inl (FirstFirstConflict t')"
    by blast
  with h1 h2 h3 h4 show ?thesis by blast
qed

text \<open>
  Claim C3. Let \<open>s\<close> be the first-set of the child of a \<^verbatim>\<open>repeat0\<close> node. If \<open>s\<close> holds the
  end-of-input marker, the node's analysis raises the epsilon-repeat error, and so do
  \<^verbatim>\<open>get\<close> and \<^verbatim>\<open>compile\<close> on a node that is not cached. If \<open>s\<close> does not hold the marker, no
  error is raised and the node's first-set is \<open>s\<close> followed by the marker.
\<close>

theorem repeat0_epsilon_check:
  assumes "distinct_cache c" and "fst (get R c e rs) = Inr s"
  shows "(brandEof \<in> set s \<longrightarrow>
            fst (getInner R c (Repeat0 e) rs) = Inl EpsilonRepeat
          \<and> (c (Repeat0 e) = None \<longrightarrow>
                fst (get R c (Repeat0 e) rs) = Inl EpsilonRepeat
              \<and> (rs = [] \<longrightarrow> fst (compile R c (Repeat0 e)) = Inl EpsilonRepeat)))
       \<and> (brandEof \<notin> set s \<longrightarrow>
            fst (getInner R c (Repeat0 e) rs) = Inr (s @ [brandEof])
          \<and> (c (Repeat0 e) = None \<longrightarrow> fst (get R c (Repeat0 e) rs) = Inr (s @ [brandEof])))"
proof -
  from fst_eqD[OF assms(2)] obtain c' where g: "get R c e rs = (Inr s, c')" by blast
  from get_distinct(1)[OF g assms(1)] have d: "distinct s" by simp
  show ?thesis
  proof (cases "brandEof \<in> set s")
    case True
    then have i: "getInner R c (Repeat0 e) rs = (Inl EpsilonRepeat, c')" using g by simp
    then have j: "c (Repeat0 e) = None \<Longrightarrow> get R c (Repeat0 e) rs = (Inl EpsilonRepeat, c')"
      by (simp add: get.simps)
    then have "c (Repeat0 e) = None \<Longrightarrow> rs = [] \<Longrightarrow>
        fst (compile R c (Repeat0 e)) = Inl EpsilonRepeat"
      by simp
    then show ?thesis using True i j by simp
  next
    case False
    then have "distinct (s @ [brandEof])" using d by simp
    then have "newSet (s @ [brandEof]) = s @ [brandEof]" by (rule newSet_distinct)
    then have i: "getInner R c (Repeat0 e) rs = (Inr (s @ [brandEof]), c')" using g False by simp
    then have "c (Repeat0 e) = None \<Longrightarrow> fst (get R c (Repeat0 e) rs) = Inr (s @ [brandEof])"
      by (simp add: get.simps)
    then show ?thesis using False i by simp
  qed
qed

theorem repeat0_epsilon_check_witness:
  "distinct_cache Map.empty
   \<and> fst (get [] Map.empty (Alt [Literal ''x'', Reduce 0 (Some PushNullFn)]) [])
       = Inr [brandLiteral ''x'', brandEof]
   \<and> brandEof \<in> set [brandLiteral ''x'', brandEof]
   \<and> fst (compile [] Map.empty (Repeat0 (Alt [Literal ''x'', Reduce 0 (Some PushNullFn)])))
       = Inl EpsilonRepeat
   \<and> fst (get [] Map.empty (Literal ''x'') []) = Inr [brandLiteral ''x'']
   \<and> brandEof \<notin> set [brandLiteral ''x'']
   \<and> fst (get [] Map.empty (Repeat0 (Literal ''x'')) []) = Inr ([brandLiteral ''x''] @ [brandEof])"
proof -
  have h1: "distinct_cache Map.empty" by (simp add: distinct_cache_def)
  have h2: "fst (get [] Map.empty (Alt [Literal ''x'', Reduce 0 (Some PushNullFn)]) [])
       = Inr [brandLiteral ''x'', brandEof]"
    by (simp add: get.simps brandLiteral_def brandEof_def setAdd_def)
  have h3: "brandEof \<in> set [brandLiteral ''x'', brandEof]" by simp
  have h4: "fst (get [] Map.empty (Literal ''x'') []) = Inr [brandLiteral ''x'']"
    by (simp add: get.simps)
  have h5: "brandEof \<notin> set [brandLiteral ''x'']" by (simp add: brandLiteral_def brandEof_def)
  have n: "(Map.empty :: cache) n = None" for n by simp
  from repeat0_epsilon_check[where c = Map.empty, OF h1 h2] h3 n
  have a: "fst (compile [] Map.empty (Repeat0 (Alt [Literal ''x'', Reduce 0 (Some PushNullFn)])))
       = Inl EpsilonRepeat" by blast
  from repeat0_epsilon_check[where c = Map.empty, OF h1 h4] h5 n
  have b: "fst (get [] Map.empty (Repeat0 (Literal ''x'')) []) = Inr ([brandLiteral ''x''] @ [brandEof])"
    by blast
  from h1 h2 h3 h4 h5 a b show ?thesis by blast
qed

text \<open>
  Claim C4. One turn of the \<^verbatim>\<open>seq\<close> loop, for a child with first-set \<open>s\<close>: the marker is
  removed from the accumulated set; a first/follow conflict is raised exactly when a terminal
  of \<open>s\<close> is in what remains, and it names such a terminal; otherwise \<open>s\<close> is appended, and the
  loop goes on to the next child if \<open>s\<close> holds the marker and stops if not. When the analysis
  of a \<^verbatim>\<open>seq\<close> node returns, the children up to the first one whose first-set lacks the
  marker have been analysed, the result is their first-sets in order with the marker removed
  from all but the last, no terminal occurs twice, and the result holds the marker exactly
  when every child's first-set does.
\<close>

theorem seq_first_set_accumulation:
  assumes "distinct_cache c"
  shows "(\<forall>e s rest acc. fst (get R c e rs) = Inr s \<longrightarrow>
            (set s \<inter> set (setDelete brandEof acc) \<noteq> {} \<longrightarrow>
               (\<exists>t. t \<in> set s \<and> t \<in> set (setDelete brandEof acc) \<and>
                  fst (seqLoop R c (e # rest) acc rs) = Inl (FirstFollowConflict t)))
          \<and> (set s \<inter> set (setDelete brandEof acc) = {} \<longrightarrow>
               seqLoop R c (e # rest) acc rs =
                 (if brandEof \<in> set s
                  then seqLoop R (snd (get R c e rs)) rest (setDelete brandEof acc @ s) rs
                  else (Inr (setDelete brandEof acc @ s), snd (get R c e rs)))))
       \<and> (\<forall>res. fst (getInner R c (Seq es) rs) = Inr res \<longrightarrow>
            (\<exists>k ss. k \<le> length es \<and> length ss = k
               \<and> fst (childSets R c (take k es) rs) = Inr ss
               \<and> (\<forall>s\<in>set (butlast ss). brandEof \<in> set s)
               \<and> (k < length es \<longrightarrow> ss \<noteq> [] \<and> brandEof \<notin> set (last ss))
               \<and> res = seq_first ss \<and> distinct res)
          \<and> (brandEof \<in> set res \<longleftrightarrow>
               (\<exists>ss. fst (childSets R c es rs) = Inr ss \<and> (\<forall>s\<in>set ss. brandEof \<in> set s))))"
proof (intro conjI allI impI)
  fix e s rest acc
  assume "fst (get R c e rs) = Inr s"
  then have g: "get R c e rs = (Inr s, snd (get R c e rs))"
    by (cases "get R c e rs") simp
  from get_distinct(1)[OF g assms] have d: "distinct s" by simp
  note st = seqLoop_step[OF g d, of acc rest]
  {
    assume "set s \<inter> set (setDelete brandEof acc) \<noteq> {}"
    with st obtain t where "t \<in> set s" "t \<in> set (setDelete brandEof acc)"
        "seqLoop R c (e # rest) acc rs = (Inl (FirstFollowConflict t), snd (get R c e rs))"
      by blast
    then have "t \<in> set s \<and> t \<in> set (setDelete brandEof acc) \<and>
        fst (seqLoop R c (e # rest) acc rs) = Inl (FirstFollowConflict t)"
      by simp
    then show "\<exists>t. t \<in> set s \<and> t \<in> set (setDelete brandEof acc) \<and>
        fst (seqLoop R c (e # rest) acc rs) = Inl (FirstFollowConflict t)" ..
  }
  {
    assume "set s \<inter> set (setDelete brandEof acc) = {}"
    with st show "seqLoop R c (e # rest) acc rs =
                 (if brandEof \<in> set s
                  then seqLoop R (snd (get R c e rs)) rest (setDelete brandEof acc @ s) rs
                  else (Inr (setDelete brandEof acc @ s), snd (get R c e rs)))"
      by blast
  }
next
  fix res
  assume "fst (getInner R c (Seq es) rs) = Inr res"
  then have "fst (seqLoop R c es [brandEof] rs) = Inr res" by simp
  from fst_eqD[OF this] obtain c' where l: "seqLoop R c es [brandEof] rs = (Inr res, c')"
    by blast
  have shape: "\<exists>k ss. k \<le> length es \<and> length ss = k
               \<and> fst (childSets R c (take k es) rs) = Inr ss
               \<and> (\<forall>s\<in>set (butlast ss). brandEof \<in> set s)
               \<and> (k < length es \<longrightarrow> ss \<noteq> [] \<and> brandEof \<notin> set (last ss))
               \<and> res = seq_first ss \<and> distinct res"
    using seqLoop_success[OF l]
  proof
    assume "es = [] \<and> res = [brandEof] \<and> c' = c"
    then have "0 \<le> length es \<and> length ([] :: terminal list list) = 0
               \<and> fst (childSets R c (take 0 es) rs) = Inr []
               \<and> (\<forall>s\<in>set (butlast ([] :: terminal list list)). brandEof \<in> set s)
               \<and> (0 < length es \<longrightarrow> ([] :: terminal list list) \<noteq> [] \<and> brandEof \<notin> set (last []))
               \<and> res = seq_first [] \<and> distinct res"
      by (simp add: seq_first_def)
    then show ?thesis by blast
  next
    assume "\<exists>k ss. 0 < k \<and> k \<le> length es \<and> length ss = k
        \<and> childSets R c (take k es) rs = (Inr ss, c')
        \<and> (\<forall>s\<in>set (butlast ss). brandEof \<in> set s)
        \<and> (k < length es \<longrightarrow> brandEof \<notin> set (last ss))
        \<and> res = removeAll brandEof [brandEof] @ concat (map (removeAll brandEof) (butlast ss)) @ last ss
        \<and> (distinct [brandEof] \<longrightarrow> distinct res)"
    then obtain k ss where k: "0 < k" "k \<le> length es" "length ss = k"
        "childSets R c (take k es) rs = (Inr ss, c')"
        "\<forall>s\<in>set (butlast ss). brandEof \<in> set s"
        "k < length es \<longrightarrow> brandEof \<notin> set (last ss)"
        "res = removeAll brandEof [brandEof] @ concat (map (removeAll brandEof) (butlast ss)) @ last ss"
        "distinct [brandEof] \<longrightarrow> distinct res" by blast
    have ne: "ss \<noteq> []" using k(1,3) by auto
    then have "res = seq_first ss" using k(7) by (simp add: seq_first_def)
    then have "k \<le> length es \<and> length ss = k
               \<and> fst (childSets R c (take k es) rs) = Inr ss
               \<and> (\<forall>s\<in>set (butlast ss). brandEof \<in> set s)
               \<and> (k < length es \<longrightarrow> ss \<noteq> [] \<and> brandEof \<notin> set (last ss))
               \<and> res = seq_first ss \<and> distinct res"
      using k ne by simp
    then show ?thesis by blast
  qed
  then show "\<exists>k ss. k \<le> length es \<and> length ss = k
               \<and> fst (childSets R c (take k es) rs) = Inr ss
               \<and> (\<forall>s\<in>set (butlast ss). brandEof \<in> set s)
               \<and> (k < length es \<longrightarrow> ss \<noteq> [] \<and> brandEof \<notin> set (last ss))
               \<and> res = seq_first ss \<and> distinct res" .
  from shape obtain k ss where k: "k \<le> length es" "length ss = k"
      "fst (childSets R c (take k es) rs) = Inr ss"
      "\<forall>s\<in>set (butlast ss). brandEof \<in> set s"
      "k < length es \<longrightarrow> ss \<noteq> [] \<and> brandEof \<notin> set (last ss)"
      "res = seq_first ss" by blast
  have in_res: "brandEof \<in> set res \<longleftrightarrow> (ss = [] \<or> brandEof \<in> set (last ss))"
    using k(6) by (auto simp: seq_first_def)
  show "brandEof \<in> set res \<longleftrightarrow>
      (\<exists>ss. fst (childSets R c es rs) = Inr ss \<and> (\<forall>s\<in>set ss. brandEof \<in> set s))"
  proof
    assume "brandEof \<in> set res"
    with in_res k(5) have full: "k = length es" and l: "ss = [] \<or> brandEof \<in> set (last ss)"
      using k(1) by auto
    have "\<forall>s\<in>set ss. brandEof \<in> set s"
    proof (cases "ss = []")
      case True
      then show ?thesis by simp
    next
      case False
      then have "set (butlast ss @ [last ss]) = set ss" by simp
      then have "set ss = set (butlast ss) \<union> {last ss}" by auto
      then show ?thesis using k(4) l False by auto
    qed
    then show "\<exists>ss. fst (childSets R c es rs) = Inr ss \<and> (\<forall>s\<in>set ss. brandEof \<in> set s)"
      using k(3) full by auto
  next
    assume "\<exists>ss. fst (childSets R c es rs) = Inr ss \<and> (\<forall>s\<in>set ss. brandEof \<in> set s)"
    then obtain ss2 where ss2: "fst (childSets R c es rs) = Inr ss2" "\<forall>s\<in>set ss2. brandEof \<in> set s"
      by blast
    from childSets_take[OF ss2(1), of k] k(3) have tk: "ss = take k ss2" by simp
    show "brandEof \<in> set res"
    proof (cases "ss = []")
      case True
      then show ?thesis using in_res by simp
    next
      case False
      then have "last ss \<in> set ss" by simp
      then have "last ss \<in> set ss2" using tk by (metis in_set_takeD)
      then show ?thesis using in_res ss2(2) by simp
    qed
  qed
qed

theorem seq_first_set_accumulation_witness:
  "distinct_cache Map.empty
   \<and> fst (get [] Map.empty (Alt [Literal ''x'', Reduce 0 (Some PushNullFn)]) [])
       = Inr [brandLiteral ''x'', brandEof]
   \<and> set [brandLiteral ''x'', brandEof] \<inter> set (setDelete brandEof [brandLiteral ''x'', brandEof]) \<noteq> {}
   \<and> (\<exists>t. t \<in> set [brandLiteral ''x'', brandEof]
         \<and> t \<in> set (setDelete brandEof [brandLiteral ''x'', brandEof])
         \<and> fst (seqLoop [] Map.empty [Alt [Literal ''x'', Reduce 0 (Some PushNullFn)], Literal ''y'']
                  [brandLiteral ''x'', brandEof] []) = Inl (FirstFollowConflict t))
   \<and> fst (getInner [] Map.empty (Seq [Alt [Literal ''x'', Reduce 0 (Some PushNullFn)], Literal ''y'',
                                      Literal ''z'']) [])
       = Inr [brandLiteral ''x'', brandLiteral ''y'']
   \<and> (brandEof \<in> set [brandLiteral ''x'', brandLiteral ''y''] \<longleftrightarrow>
        (\<exists>ss. fst (childSets [] Map.empty [Alt [Literal ''x'', Reduce 0 (Some PushNullFn)], Literal ''y'',
                                      Literal ''z''] []) = Inr ss
           \<and> (\<forall>s\<in>set ss. brandEof \<in> set s)))"
proof -
  let ?a = "Alt [Literal ''x'', Reduce 0 (Some PushNullFn)]"
  have h1: "distinct_cache Map.empty" by (simp add: distinct_cache_def)
  have h2: "fst (get [] Map.empty ?a []) = Inr [brandLiteral ''x'', brandEof]"
    by (simp add: get.simps brandLiteral_def brandEof_def setAdd_def)
  have h3: "set [brandLiteral ''x'', brandEof] \<inter> set (setDelete brandEof [brandLiteral ''x'', brandEof]) \<noteq> {}"
    by (simp add: setDelete_def brandLiteral_def brandEof_def)
  have h4: "fst (getInner [] Map.empty (Seq [?a, Literal ''y'', Literal ''z'']) [])
       = Inr [brandLiteral ''x'', brandLiteral ''y'']"
    by (simp add: get.simps brandLiteral_def brandEof_def setAdd_def setDelete_def)
  note inst = seq_first_set_accumulation[where c = Map.empty and R = "[]" and rs = "[]", OF h1]
  note step = inst[where es = "[]", THEN conjunct1, rule_format, OF h2, THEN conjunct1, rule_format,
      where acc = "[brandLiteral ''x'', brandEof]" and rest = "[Literal ''y'']", OF h3]
  note whole = inst[where es = "[?a, Literal ''y'', Literal ''z'']", THEN conjunct2, rule_format,
      OF h4, THEN conjunct2]
  from h1 h2 h3 h4 step whole show ?thesis
    by (intro conjI)
qed


section \<open>Properties of the parser runtime\<close>





text \<open>
  Claim C10. When the root matcher returns normally and tokens are left (the state's index is
  below the number of tokens), the parser returns the value on top of the value stack
  (\<^verbatim>\<open>undefined\<close> when the stack is empty): no error is raised for the tokens that were not
  consumed.
\<close>

theorem trailing_tokens_ignored:
  assumes "parse n h parsers p (initState toks) = Some (Inr st)"
    and "psIndex st < length toks"
  shows "runParser n h parsers p toks = Some (Inr (done' st))
       \<and> done' st = (if psResults st = [] then JUndefined else last (psResults st))"
  using assms by (simp add: runParser_def done'_def)

theorem trailing_tokens_ignored_witness:
  "parse 1 \<lparr>callFn = (\<lambda>f args. Inr JUndefined), iterHost = (\<lambda>x. None)\<rparr> [] (MatchType ''value'')
      (initState [\<lparr>tokType = ''value'', tokValue = JNumber ''1'', tokIndex = 0, tokOuterIndex = 0, tokLength = 1\<rparr>,
                  \<lparr>tokType = ''value'', tokValue = JNumber ''2'', tokIndex = 2, tokOuterIndex = 0, tokLength = 1\<rparr>])
     = Some (Inr \<lparr>psTokens =
                 [\<lparr>tokType = ''value'', tokValue = JNumber ''1'', tokIndex = 0, tokOuterIndex = 0, tokLength = 1\<rparr>,
                  \<lparr>tokType = ''value'', tokValue = JNumber ''2'', tokIndex = 2, tokOuterIndex = 0, tokLength = 1\<rparr>],
                psIndex = 1, psResults = [JNumber ''1'']\<rparr>)
   \<and> (1::nat) < length
                 [\<lparr>tokType = ''value'', tokValue = JNumber ''1'', tokIndex = 0, tokOuterIndex = 0, tokLength = 1\<rparr>,
                  \<lparr>tokType = ''value'', tokValue = JNumber ''2'', tokIndex = 2, tokOuterIndex = 0, tokLength = 1\<rparr>]
   \<and> runParser 1 \<lparr>callFn = (\<lambda>f args. Inr JUndefined), iterHost = (\<lambda>x. None)\<rparr> [] (MatchType ''value'')
                 [\<lparr>tokType = ''value'', tokValue = JNumber ''1'', tokIndex = 0, tokOuterIndex = 0, tokLength = 1\<rparr>,
                  \<lparr>tokType = ''value'', tokValue = JNumber ''2'', tokIndex = 2, tokOuterIndex = 0, tokLength = 1\<rparr>]
     = Some (Inr (JNumber ''1''))"
proof -
  let ?t1 = "\<lparr>tokType = ''value'', tokValue = JNumber ''1'', tokIndex = 0, tokOuterIndex = 0, tokLength = 1\<rparr>"
  let ?t2 = "\<lparr>tokType = ''value'', tokValue = JNumber ''2'', tokIndex = 2, tokOuterIndex = 0, tokLength = 1\<rparr>"
  let ?st = "\<lparr>psTokens = [?t1, ?t2], psIndex = 1, psResults = [JNumber ''1'']\<rparr>"
  have p: "parse 1 \<lparr>callFn = (\<lambda>f args. Inr JUndefined), iterHost = (\<lambda>x. None)\<rparr> [] (MatchType ''value'') (initState [?t1, ?t2]) = Some (Inr ?st)"
    by (simp add: matchType_def initState_def nextToken_def peek_def push_def)
  have i: "psIndex ?st < length [?t1, ?t2]" by simp
  from trailing_tokens_ignored[OF p i]
  have "runParser 1 \<lparr>callFn = (\<lambda>f args. Inr JUndefined), iterHost = (\<lambda>x. None)\<rparr> [] (MatchType ''value'') [?t1, ?t2] = Some (Inr (JNumber ''1''))"
    by (simp add: done'_def)
  with p show ?thesis by simp
qed

text \<open>More fuel does not change what a parse returns.\<close>


lemma parse_mono_Suc_all:
  "(\<forall>h ps p st r. parse n h ps p st = Some r \<longrightarrow> parse (Suc n) h ps p st = Some r)
 \<and> (\<forall>h ps qs st r. parseSeq n h ps qs st = Some r \<longrightarrow> parseSeq (Suc n) h ps qs st = Some r)
 \<and> (\<forall>h ps p ms st r. parseRepeat n h ps p ms st = Some r \<longrightarrow> parseRepeat (Suc n) h ps p ms st = Some r)"
proof (induction n)
  case 0
  then show ?case by (auto split: sum.splits)
next
  case (Suc n)
  then have ih1: "\<And>h ps p st r. parse n h ps p st = Some r \<Longrightarrow> parse (Suc n) h ps p st = Some r"
    and ih2: "\<And>h ps qs st r. parseSeq n h ps qs st = Some r \<Longrightarrow> parseSeq (Suc n) h ps qs st = Some r"
    and ih3: "\<And>h ps p ms st r. parseRepeat n h ps p ms st = Some r \<Longrightarrow> parseRepeat (Suc n) h ps p ms st = Some r"
    by blast+
  have a: "parse (Suc (Suc n)) h ps p st = Some r" if "parse (Suc n) h ps p st = Some r" for h ps p st r
  proof (cases p)
    case (MatchRule rn)
    show ?thesis
    proof (cases "map_of ps rn")
      case None
      then show ?thesis using that MatchRule by (auto split: sum.splits)
    next
      case (Some q)
      then have "parse n h ps q st \<noteq> None"
        using that MatchRule by (auto split: option.splits)
      then obtain x where x: "parse n h ps q st = Some x" by (auto split: sum.splits)
      from ih1[OF x] x show ?thesis using that MatchRule Some by (auto split: sum.splits)
    qed
  next
    case (SeqP qs)
    then show ?thesis using that ih2 by (auto split: sum.splits)
  next
    case (AltP m)
    show ?thesis
    proof (cases "altLookup m (peek st)")
      case None
      then show ?thesis using that AltP by (auto split: sum.splits)
    next
      case (Some q)
      then show ?thesis using that AltP ih1 by (auto split: sum.splits)
    qed
  next
    case (RepeatP q ms)
    then show ?thesis using that ih3 by (auto split: sum.splits)
  qed (use that in auto)
  have b: "parseSeq (Suc (Suc n)) h ps qs st = Some r" if "parseSeq (Suc n) h ps qs st = Some r" for h ps qs st r
  proof (cases qs)
    case Nil
    then show ?thesis using that by (auto split: sum.splits)
  next
    case (Cons q qs')
    then have "parse n h ps q st \<noteq> None"
      using that by (auto split: option.splits)
    then obtain x where x: "parse n h ps q st = Some x" by (auto split: sum.splits)
    show ?thesis
    proof (cases x)
      case (Inl e)
      then show ?thesis using that Cons x ih1[OF x] by (auto split: sum.splits)
    next
      case (Inr st')
      then have "parseSeq n h ps qs' st' = Some r" using that Cons x by (auto split: sum.splits)
      from ih2[OF this] show ?thesis using Cons Inr ih1[OF x] by (auto split: sum.splits)
    qed
  qed
  have c: "parseRepeat (Suc (Suc n)) h ps p ms st = Some r" if "parseRepeat (Suc n) h ps p ms st = Some r"
    for h ps p ms st r
  proof (cases "peek st")
    case None
    then show ?thesis using that by (auto simp: parseRepeat.simps(2) split: sum.splits)
  next
    case (Some t)
    show ?thesis
    proof (cases "brandToken (Some t) \<notin> set ms")
      case True
      then show ?thesis using that Some by (auto simp: parseRepeat.simps(2) split: sum.splits)
    next
      case False
      then have "parse n h ps p st \<noteq> None"
        using that Some by (auto simp: parseRepeat.simps(2) split: option.splits)
      then obtain x where x: "parse n h ps p st = Some x" by (auto split: sum.splits)
      show ?thesis
      proof (cases x)
        case (Inl e)
        then show ?thesis using that Some False x ih1[OF x] by (auto simp: parseRepeat.simps(2) split: sum.splits)
      next
        case (Inr st')
        show ?thesis
        proof (cases "reduce 2 (appendFn h) st'")
          case (Inl e)
          then show ?thesis using that Some False x Inr ih1[OF x] by (auto simp: parseRepeat.simps(2) split: sum.splits)
        next
          case r2: (Inr st'')
          then have "parseRepeat n h ps p ms st'' = Some r"
            using that Some False x Inr by (auto simp: parseRepeat.simps(2) split: sum.splits)
          from ih3[OF this] show ?thesis
            using Some False x Inr r2 ih1[OF x] by (auto simp: parseRepeat.simps(2) split: sum.splits)
        qed
      qed
    qed
  qed
  from a b c show ?case by blast
qed

lemma parse_mono:
  "parse n h ps p st = Some r \<Longrightarrow> n \<le> m \<Longrightarrow> parse m h ps p st = Some r"
proof (induction m)
  case 0
  then show ?case by simp
next
  case (Suc m)
  show ?case
  proof (cases "n = Suc m")
    case True
    then show ?thesis using Suc.prems by simp
  next
    case False
    then have "parse m h ps p st = Some r" using Suc by simp
    then show ?thesis using parse_mono_Suc_all[of m] by blast
  qed
qed

lemma parseSeq_mono:
  "parseSeq n h ps qs st = Some r \<Longrightarrow> n \<le> m \<Longrightarrow> parseSeq m h ps qs st = Some r"
proof (induction m)
  case 0
  then show ?case by simp
next
  case (Suc m)
  show ?case
  proof (cases "n = Suc m")
    case True
    then show ?thesis using Suc.prems by simp
  next
    case False
    then have "parseSeq m h ps qs st = Some r" using Suc by simp
    then show ?thesis using parse_mono_Suc_all[of m] by blast
  qed
qed

lemma returns_MatchType: "returns h ps (MatchType ty) st (matchType ty st)"
  unfolding returns_def by (rule exI[of _ "Suc 0"]) simp

lemma returns_MatchLiteral: "returns h ps (MatchLiteral v) st (matchLiteral v st)"
  unfolding returns_def by (rule exI[of _ "Suc 0"]) simp

lemma returns_ReduceP: "returns h ps (ReduceP a f) st (reduce a (applyFn h f) st)"
  unfolding returns_def by (rule exI[of _ "Suc 0"]) simp

lemma returns_MatchRule:
  assumes "map_of ps rn = Some q" and "returns h ps q st (Inr st')"
  shows "returns h ps (MatchRule rn) st (Inr st')"
proof -
  from assms(2) obtain n where "parse n h ps q st = Some (Inr st')"
    by (auto simp: returns_def)
  then have "parse (Suc n) h ps (MatchRule rn) st = Some (Inr st')"
    using assms(1) by simp
  then show ?thesis unfolding returns_def by blast
qed

lemma returns_SeqP:
  assumes "returnsSeq h ps qs st r"
  shows "returns h ps (SeqP qs) st r"
proof -
  from assms obtain n where "parseSeq n h ps qs st = Some r"
    by (auto simp: returnsSeq_def)
  then have "parse (Suc n) h ps (SeqP qs) st = Some r" by simp
  then show ?thesis unfolding returns_def by blast
qed

lemma returns_AltP:
  assumes "altLookup m (peek st) = Some q" and "returns h ps q st r"
  shows "returns h ps (AltP m) st r"
proof -
  from assms(2) obtain n where "parse n h ps q st = Some r"
    by (auto simp: returns_def)
  then have "parse (Suc n) h ps (AltP m) st = Some r"
    using assms(1) by simp
  then show ?thesis unfolding returns_def by blast
qed

lemma returnsSeq_Nil: "returnsSeq h ps [] st (Inr st)"
  unfolding returnsSeq_def by (rule exI[of _ "Suc 0"]) simp

lemma returnsSeq_Cons:
  assumes "returns h ps q st (Inr st1)" and "returnsSeq h ps qs st1 r"
  shows "returnsSeq h ps (q # qs) st r"
proof -
  from assms(1) obtain n1 where n1: "parse n1 h ps q st = Some (Inr st1)"
    by (auto simp: returns_def)
  from assms(2) obtain n2 where n2: "parseSeq n2 h ps qs st1 = Some r"
    by (auto simp: returnsSeq_def)
  have "parse (max n1 n2) h ps q st = Some (Inr st1)"
    using parse_mono[OF n1] by simp
  moreover have "parseSeq (max n1 n2) h ps qs st1 = Some r"
    using parseSeq_mono[OF n2] by simp
  ultimately have "parseSeq (Suc (max n1 n2)) h ps (q # qs) st = Some r" by simp
  then show ?thesis unfolding returnsSeq_def by blast
qed

lemma popArgs_two: "popArgs 2 (res @ [a, b]) [] = ([a, b], res)"
  by (simp add: eval_nat_numeral butlast_append)

lemma popArgs_zero: "popArgs 0 res [] = ([], res)"
  by simp

lemma brand_neq [simp]:
  "brandLiteral s \<noteq> brandEof" "brandEof \<noteq> brandLiteral s"
  "brandLiteral s \<noteq> brandType ty" "brandType ty \<noteq> brandLiteral s"
  "brandType ty \<noteq> brandEof" "brandEof \<noteq> brandType ty"
  by (auto simp: brandLiteral_def brandEof_def brandType_def)

lemma sep_list_parse:
  assumes tbl: "map_of ps r = Some (SeqP [MatchType ''value'',
      AltP [(brandLiteral s, SeqP [MatchLiteral s,
                AltP [(brandType ''value'', MatchRule r), (brandEof, ReduceP 0 (Some PushArrFn))],
                ReduceP 2 (Some Proj2)]),
            (brandEof, ReduceP 0 (Some PushArrFn))],
      ReduceP 2 (Some ConsFn)])"
    and "vs \<noteq> []"
  shows "returns h ps (MatchRule r)
           \<lparr>psTokens = pre @ sepTokens s vs, psIndex = length pre, psResults = res\<rparr>
           (Inr \<lparr>psTokens = pre @ sepTokens s vs, psIndex = length pre + length (sepTokens s vs),
                  psResults = res @ [JArray vs]\<rparr>)"
  using assms
proof (induction s vs arbitrary: pre res rule: sepTokens.induct)
  case (1 s)
  then show ?case by simp
next
  case (2 s v)
  note tbl = "2.prems"(1)
  let ?toks = "pre @ [valueToken v]"
  let ?st0 = "\<lparr>psTokens = ?toks, psIndex = length pre, psResults = res\<rparr>"
  let ?st1 = "\<lparr>psTokens = ?toks, psIndex = Suc (length pre), psResults = res @ [v]\<rparr>"
  let ?st2 = "\<lparr>psTokens = ?toks, psIndex = Suc (length pre), psResults = res @ [v, JArray []]\<rparr>"
  let ?st3 = "\<lparr>psTokens = ?toks, psIndex = Suc (length pre), psResults = res @ [JArray [v]]\<rparr>"
  let ?m1 = "[(brandLiteral s, SeqP [MatchLiteral s,
                AltP [(brandType ''value'', MatchRule r), (brandEof, ReduceP 0 (Some PushArrFn))],
                ReduceP 2 (Some Proj2)]),
            (brandEof, ReduceP 0 (Some PushArrFn))]"
  have a: "matchType ''value'' ?st0 = Inr ?st1"
    by (simp add: matchType_def nextToken_def peek_def push_def valueToken_def)
  have b: "altLookup ?m1 (peek ?st1) = Some (ReduceP 0 (Some PushArrFn))"
    by (simp add: altLookup_def peek_def brandToken_def)
  have c: "reduce 0 (applyFn h (Some PushArrFn)) ?st1 = Inr ?st2"
    by (simp add: reduce_def applyFn_def)
  have d: "reduce 2 (applyFn h (Some ConsFn)) ?st2 = Inr ?st3"
    using popArgs_two[of res v "JArray []"]
    by (simp add: reduce_def applyFn_def arg_def spread_def)
  have 1: "returns h ps (MatchType ''value'') ?st0 (Inr ?st1)"
    using returns_MatchType[of h ps "''value''" ?st0] a by simp
  have r0: "returns h ps (ReduceP 0 (Some PushArrFn)) ?st1 (Inr ?st2)"
    using returns_ReduceP[of h ps 0 "Some PushArrFn" ?st1] c by simp
  have 2: "returns h ps (AltP ?m1) ?st1 (Inr ?st2)"
    by (rule returns_AltP[OF b r0])
  have 3: "returns h ps (ReduceP 2 (Some ConsFn)) ?st2 (Inr ?st3)"
    using returns_ReduceP[of h ps 2 "Some ConsFn" ?st2] d by simp
  have sq: "returnsSeq h ps [MatchType ''value'', AltP ?m1, ReduceP 2 (Some ConsFn)] ?st0 (Inr ?st3)"
    by (intro returnsSeq_Cons[OF 1] returnsSeq_Cons[OF 2] returnsSeq_Cons[OF 3] returnsSeq_Nil)
  have "returns h ps (MatchRule r) ?st0 (Inr ?st3)"
    by (rule returns_MatchRule[OF tbl returns_SeqP[OF sq]])
  then show ?case by simp
next
  case (3 s v v' vs)
  note tbl = "3.prems"(1)
  let ?rest = "sepTokens s (v' # vs)"
  let ?toks = "pre @ valueToken v # operatorToken s # ?rest"
  let ?n = "length ?toks"
  let ?st0 = "\<lparr>psTokens = ?toks, psIndex = length pre, psResults = res\<rparr>"
  let ?st1 = "\<lparr>psTokens = ?toks, psIndex = Suc (length pre), psResults = res @ [v]\<rparr>"
  let ?st2 = "\<lparr>psTokens = ?toks, psIndex = Suc (Suc (length pre)), psResults = res @ [v, JString s]\<rparr>"
  let ?st3 = "\<lparr>psTokens = ?toks, psIndex = ?n, psResults = res @ [v, JString s, JArray (v' # vs)]\<rparr>"
  let ?st4 = "\<lparr>psTokens = ?toks, psIndex = ?n, psResults = res @ [v, JArray (v' # vs)]\<rparr>"
  let ?st5 = "\<lparr>psTokens = ?toks, psIndex = ?n, psResults = res @ [JArray (v # v' # vs)]\<rparr>"
  let ?m2 = "[(brandType ''value'', MatchRule r), (brandEof, ReduceP 0 (Some PushArrFn))]"
  let ?inner = "SeqP [MatchLiteral s, AltP ?m2, ReduceP 2 (Some Proj2)]"
  let ?m1 = "[(brandLiteral s, ?inner), (brandEof, ReduceP 0 (Some PushArrFn))]"
  obtain t rest' where rest: "?rest = valueToken v' # rest'"
    by (cases vs) auto
  have a: "matchType ''value'' ?st0 = Inr ?st1"
    by (simp add: matchType_def nextToken_def peek_def push_def valueToken_def)
  have b: "altLookup ?m1 (peek ?st1) = Some ?inner"
    by (simp add: altLookup_def peek_def brandToken_def nth_append operatorToken_def tokText_def)
  have c: "matchLiteral s ?st1 = Inr ?st2"
    by (simp add: matchLiteral_def nextToken_def peek_def push_def nth_append operatorToken_def)
  have d: "altLookup ?m2 (peek ?st2) = Some (MatchRule r)"
    unfolding rest
    by (simp add: altLookup_def peek_def brandToken_def nth_append valueToken_def)
  have ih: "returns h ps (MatchRule r) ?st2 (Inr ?st3)"
    using "3.IH"[OF tbl, of "pre @ [valueToken v, operatorToken s]" "res @ [v, JString s]"] by simp
  have e: "reduce 2 (applyFn h (Some Proj2)) ?st3 = Inr ?st4"
    using popArgs_two[of "res @ [v]" "JString s" "JArray (v' # vs)"]
    by (simp add: reduce_def applyFn_def arg_def)
  have f: "reduce 2 (applyFn h (Some ConsFn)) ?st4 = Inr ?st5"
    using popArgs_two[of res v "JArray (v' # vs)"]
    by (simp add: reduce_def applyFn_def arg_def spread_def)
  have 1: "returns h ps (MatchType ''value'') ?st0 (Inr ?st1)"
    using returns_MatchType[of h ps "''value''" ?st0] a by simp
  have 2: "returns h ps (MatchLiteral s) ?st1 (Inr ?st2)"
    using returns_MatchLiteral[of h ps s ?st1] c by simp
  have 3: "returns h ps (AltP ?m2) ?st2 (Inr ?st3)"
    by (rule returns_AltP[OF d ih])
  have 4: "returns h ps (ReduceP 2 (Some Proj2)) ?st3 (Inr ?st4)"
    using returns_ReduceP[of h ps 2 "Some Proj2" ?st3] e by simp
  have 5: "returns h ps (ReduceP 2 (Some ConsFn)) ?st4 (Inr ?st5)"
    using returns_ReduceP[of h ps 2 "Some ConsFn" ?st4] f by simp
  have "returnsSeq h ps [MatchLiteral s, AltP ?m2, ReduceP 2 (Some Proj2)] ?st1 (Inr ?st4)"
    by (intro returnsSeq_Cons[OF 2] returnsSeq_Cons[OF 3] returnsSeq_Cons[OF 4] returnsSeq_Nil)
  then have "returns h ps ?inner ?st1 (Inr ?st4)" by (rule returns_SeqP)
  then have 6: "returns h ps (AltP ?m1) ?st1 (Inr ?st4)"
    by (rule returns_AltP[OF b])
  have sq: "returnsSeq h ps [MatchType ''value'', AltP ?m1, ReduceP 2 (Some ConsFn)] ?st0 (Inr ?st5)"
    by (intro returnsSeq_Cons[OF 1] returnsSeq_Cons[OF 6] returnsSeq_Cons[OF 5] returnsSeq_Nil)
  have "returns h ps (MatchRule r) ?st0 (Inr ?st5)"
    by (rule returns_MatchRule[OF tbl returns_SeqP[OF sq]])
  then show ?case by simp
qed

text \<open>
  The same for any item matcher and any dispatch tables: when the items and the separators
  match in turn, the rule returns with the list of the item values, in the order of the
  input, in place of what they pushed.
\<close>

lemma reduce_pushArr:
  "reduce 0 (applyFn h (Some PushArrFn)) st = Inr (st\<lparr>psResults := psResults st @ [JArray []]\<rparr>)"
  by (simp add: reduce_def applyFn_def)

lemma reduce_proj2:
  "psResults st = res @ [a, b] \<Longrightarrow>
   reduce 2 (applyFn h (Some Proj2)) st = Inr (st\<lparr>psResults := res @ [b]\<rparr>)"
  using popArgs_two[of res a b] by (simp add: reduce_def applyFn_def arg_def)

lemma reduce_cons:
  "psResults st = res @ [a, JArray xs] \<Longrightarrow>
   reduce 2 (applyFn h (Some ConsFn)) st = Inr (st\<lparr>psResults := res @ [JArray (a # xs)]\<rparr>)"
  using popArgs_two[of res a "JArray xs"] by (simp add: reduce_def applyFn_def arg_def spread_def)

lemma list_rule_parse:
  assumes run: "listMatch h ps r pItem m1 st vs s'"
    and tbl: "map_of ps r = Some (SeqP [pItem, AltP m1, ReduceP 2 (Some ConsFn)])"
  shows "returns h ps (MatchRule r) st (Inr (s'\<lparr>psResults := psResults st @ [JArray vs]\<rparr>))"
  using run
proof (induction rule: listMatch.induct)
  case (single st s1 v)
  let ?a = "s1\<lparr>psResults := psResults s1 @ [JArray []]\<rparr>"
  let ?b = "s1\<lparr>psResults := psResults st @ [JArray [v]]\<rparr>"
  have 1: "returns h ps (ReduceP 0 (Some PushArrFn)) s1 (Inr ?a)"
    using returns_ReduceP[of h ps 0 "Some PushArrFn" s1] by (simp add: reduce_pushArr)
  have 2: "returns h ps (AltP m1) s1 (Inr ?a)"
    by (rule returns_AltP[OF single(3) 1])
  have "psResults ?a = psResults st @ [v, JArray []]" using single(2) by simp
  from reduce_cons[OF this, of h]
  have 3: "returns h ps (ReduceP 2 (Some ConsFn)) ?a (Inr ?b)"
    using returns_ReduceP[of h ps 2 "Some ConsFn" ?a] by simp
  have "returnsSeq h ps [pItem, AltP m1, ReduceP 2 (Some ConsFn)] st (Inr ?b)"
    by (intro returnsSeq_Cons[OF single(1)] returnsSeq_Cons[OF 2] returnsSeq_Cons[OF 3] returnsSeq_Nil)
  then show ?case by (intro returns_MatchRule[OF tbl] returns_SeqP)
next
  case (trailing st s1 v pSep m2 s2 w)
  let ?a = "s2\<lparr>psResults := psResults s2 @ [JArray []]\<rparr>"
  let ?b = "s2\<lparr>psResults := psResults st @ [v, JArray []]\<rparr>"
  let ?c = "s2\<lparr>psResults := psResults st @ [JArray [v]]\<rparr>"
  have 1: "returns h ps (ReduceP 0 (Some PushArrFn)) s2 (Inr ?a)"
    using returns_ReduceP[of h ps 0 "Some PushArrFn" s2] by (simp add: reduce_pushArr)
  have 2: "returns h ps (AltP m2) s2 (Inr ?a)"
    by (rule returns_AltP[OF trailing(6) 1])
  have "psResults ?a = (psResults st @ [v]) @ [w, JArray []]" using trailing(2,5) by simp
  from reduce_proj2[OF this, of h]
  have 3: "returns h ps (ReduceP 2 (Some Proj2)) ?a (Inr ?b)"
    using returns_ReduceP[of h ps 2 "Some Proj2" ?a] by simp
  have "returnsSeq h ps [pSep, AltP m2, ReduceP 2 (Some Proj2)] s1 (Inr ?b)"
    by (intro returnsSeq_Cons[OF trailing(4)] returnsSeq_Cons[OF 2] returnsSeq_Cons[OF 3] returnsSeq_Nil)
  then have "returns h ps (SeqP [pSep, AltP m2, ReduceP 2 (Some Proj2)]) s1 (Inr ?b)"
    by (rule returns_SeqP)
  then have 4: "returns h ps (AltP m1) s1 (Inr ?b)"
    by (rule returns_AltP[OF trailing(3)])
  have "psResults ?b = psResults st @ [v, JArray []]" by simp
  from reduce_cons[OF this, of h]
  have 5: "returns h ps (ReduceP 2 (Some ConsFn)) ?b (Inr ?c)"
    using returns_ReduceP[of h ps 2 "Some ConsFn" ?b] by simp
  have "returnsSeq h ps [pItem, AltP m1, ReduceP 2 (Some ConsFn)] st (Inr ?c)"
    by (intro returnsSeq_Cons[OF trailing(1)] returnsSeq_Cons[OF 4] returnsSeq_Cons[OF 5] returnsSeq_Nil)
  then show ?case by (intro returns_MatchRule[OF tbl] returns_SeqP)
next
  case (more st s1 v pSep m2 s2 w vs s3)
  let ?a = "s3\<lparr>psResults := psResults s2 @ [JArray vs]\<rparr>"
  let ?b = "s3\<lparr>psResults := psResults st @ [v, JArray vs]\<rparr>"
  let ?c = "s3\<lparr>psResults := psResults st @ [JArray (v # vs)]\<rparr>"
  have 2: "returns h ps (AltP m2) s2 (Inr ?a)"
    by (rule returns_AltP[OF more(6) more.IH])
  have "psResults ?a = (psResults st @ [v]) @ [w, JArray vs]" using more(2,5) by simp
  from reduce_proj2[OF this, of h]
  have 3: "returns h ps (ReduceP 2 (Some Proj2)) ?a (Inr ?b)"
    using returns_ReduceP[of h ps 2 "Some Proj2" ?a] by simp
  have "returnsSeq h ps [pSep, AltP m2, ReduceP 2 (Some Proj2)] s1 (Inr ?b)"
    by (intro returnsSeq_Cons[OF more(4)] returnsSeq_Cons[OF 2] returnsSeq_Cons[OF 3] returnsSeq_Nil)
  then have "returns h ps (SeqP [pSep, AltP m2, ReduceP 2 (Some Proj2)]) s1 (Inr ?b)"
    by (rule returns_SeqP)
  then have 4: "returns h ps (AltP m1) s1 (Inr ?b)"
    by (rule returns_AltP[OF more(3)])
  have "psResults ?b = psResults st @ [v, JArray vs]" by simp
  from reduce_cons[OF this, of h]
  have 5: "returns h ps (ReduceP 2 (Some ConsFn)) ?b (Inr ?c)"
    using returns_ReduceP[of h ps 2 "Some ConsFn" ?b] by simp
  have "returnsSeq h ps [pItem, AltP m1, ReduceP 2 (Some ConsFn)] st (Inr ?c)"
    by (intro returnsSeq_Cons[OF more(1)] returnsSeq_Cons[OF 4] returnsSeq_Cons[OF 5] returnsSeq_Nil)
  then show ?case by (intro returns_MatchRule[OF tbl] returns_SeqP)
qed

text \<open>
  And the other way round: when the item matcher and the separator matchers push one value
  each, every normal return of the rule comes from items and separators that matched in turn,
  and puts the list of the item values in place of what they pushed.
\<close>

lemma inv_MatchRule:
  assumes "parse n h ps (MatchRule r) st = Some (Inr st')" and "map_of ps r = Some q"
  shows "\<exists>k<n. parse k h ps q st = Some (Inr st')"
  using assms by (cases n) (auto split: option.splits sum.splits)

lemma inv_SeqP:
  assumes "parse n h ps (SeqP qs) st = Some res"
  shows "\<exists>k<n. parseSeq k h ps qs st = Some res"
  using assms by (cases n) auto

lemma inv_seq_Cons:
  assumes "parseSeq n h ps (q # qs) st = Some (Inr st')"
  shows "\<exists>k<n. \<exists>s1. parse k h ps q st = Some (Inr s1) \<and> parseSeq k h ps qs s1 = Some (Inr st')"
  using assms by (cases n) (auto split: option.splits sum.splits)

lemma inv_seq_Nil:
  assumes "parseSeq n h ps [] st = Some (Inr st')"
  shows "st' = st"
  using assms by (cases n) auto

lemma inv_AltP:
  assumes "parse n h ps (AltP m) st = Some (Inr st')"
  shows "\<exists>k<n. \<exists>q. altLookup m (peek st) = Some q \<and> parse k h ps q st = Some (Inr st')"
  using assms by (cases n) (auto split: option.splits)

lemma inv_ReduceP:
  assumes "parse n h ps (ReduceP a f) st = Some res"
  shows "res = reduce a (applyFn h f) st"
  using assms by (cases n) auto

lemma altLookup_entry: "altLookup m tok = Some q \<Longrightarrow> \<exists>x \<in> set m. snd x = q"
  by (auto simp: altLookup_def split: option.splits dest!: map_of_SomeD intro: bexI[of _ "(_, q)"])

lemma inv_seq_Reduce:
  assumes "parseSeq n h ps [ReduceP a f] st = Some (Inr st')"
  shows "reduce a (applyFn h f) st = Inr st'"
proof -
  from inv_seq_Cons[OF assms] obtain k s1 where 1: "parse k h ps (ReduceP a f) st = Some (Inr s1)"
    and 2: "parseSeq k h ps [] s1 = Some (Inr st')" by blast
  from inv_seq_Nil[OF 2] inv_ReduceP[OF 1] show ?thesis by simp
qed

lemma list_rule_only:
  assumes tbl: "map_of ps r = Some (SeqP [pItem, AltP m1, ReduceP 2 (Some ConsFn)])"
    and ent: "\<forall>x \<in> set m1. snd x = ReduceP 0 (Some PushArrFn) \<or>
        (\<exists>pSep m2. snd x = SeqP [pSep, AltP m2, ReduceP 2 (Some Proj2)] \<and> oneValue h ps pSep \<and>
           (\<forall>y \<in> set m2. snd y = MatchRule r \<or> snd y = ReduceP 0 (Some PushArrFn)))"
    and item: "oneValue h ps pItem"
  shows "parse n h ps (MatchRule r) st = Some (Inr st') \<Longrightarrow>
         \<exists>vs s'. listMatch h ps r pItem m1 st vs s' \<and> st' = s'\<lparr>psResults := psResults st @ [JArray vs]\<rparr>"
proof (induction n arbitrary: st st' rule: less_induct)
  case (less n)
  from inv_MatchRule[OF less.prems tbl] obtain k1 where
    "parse k1 h ps (SeqP [pItem, AltP m1, ReduceP 2 (Some ConsFn)]) st = Some (Inr st')" and k1: "k1 < n"
    by blast
  from inv_SeqP[OF this(1)] obtain k2 where
    "parseSeq k2 h ps [pItem, AltP m1, ReduceP 2 (Some ConsFn)] st = Some (Inr st')" and k2: "k2 < k1"
    by blast
  from inv_seq_Cons[OF this(1)] obtain k3 s1 where i: "parse k3 h ps pItem st = Some (Inr s1)"
    and "parseSeq k3 h ps [AltP m1, ReduceP 2 (Some ConsFn)] s1 = Some (Inr st')" and k3: "k3 < k2"
    by blast
  from inv_seq_Cons[OF this(2)] obtain k4 sA where a: "parse k4 h ps (AltP m1) s1 = Some (Inr sA)"
    and "parseSeq k4 h ps [ReduceP 2 (Some ConsFn)] sA = Some (Inr st')" and k4: "k4 < k3"
    by blast
  from inv_seq_Reduce[OF this(2)] have c: "reduce 2 (applyFn h (Some ConsFn)) sA = Inr st'" .
  from item i obtain v where v: "psResults s1 = psResults st @ [v]"
    unfolding oneValue_def by blast
  from i have ri: "returns h ps pItem st (Inr s1)" unfolding returns_def by blast
  from inv_AltP[OF a] obtain k5 q where d: "altLookup m1 (peek s1) = Some q"
    and q: "parse k5 h ps q s1 = Some (Inr sA)" and k5: "k5 < k4" by blast
  from altLookup_entry[OF d] ent
  consider (stop) "q = ReduceP 0 (Some PushArrFn)"
    | (sep) pSep m2 where "q = SeqP [pSep, AltP m2, ReduceP 2 (Some Proj2)]" "oneValue h ps pSep"
        "\<forall>y \<in> set m2. snd y = MatchRule r \<or> snd y = ReduceP 0 (Some PushArrFn)"
    by blast
  then show ?case
  proof cases
    case stop
    from inv_ReduceP[OF q[unfolded stop]] have "sA = s1\<lparr>psResults := psResults s1 @ [JArray []]\<rparr>"
      by (simp add: reduce_pushArr)
    then have "psResults sA = psResults st @ [v, JArray []]" using v by simp
    from reduce_cons[OF this, of h] c \<open>sA = _\<close>
    have "st' = s1\<lparr>psResults := psResults st @ [JArray [v]]\<rparr>" by simp
    moreover have "listMatch h ps r pItem m1 st [v] s1"
      by (rule listMatch.single[OF ri v d[unfolded stop]])
    ultimately show ?thesis by blast
  next
    case sep
    from inv_SeqP[OF q[unfolded sep(1)]] obtain j1 where
      "parseSeq j1 h ps [pSep, AltP m2, ReduceP 2 (Some Proj2)] s1 = Some (Inr sA)" and j1: "j1 < k5"
      by blast
    from inv_seq_Cons[OF this(1)] obtain j2 s2 where s: "parse j2 h ps pSep s1 = Some (Inr s2)"
      and "parseSeq j2 h ps [AltP m2, ReduceP 2 (Some Proj2)] s2 = Some (Inr sA)" and j2: "j2 < j1"
      by blast
    from inv_seq_Cons[OF this(2)] obtain j3 sB where b: "parse j3 h ps (AltP m2) s2 = Some (Inr sB)"
      and "parseSeq j3 h ps [ReduceP 2 (Some Proj2)] sB = Some (Inr sA)" and j3: "j3 < j2"
      by blast
    from inv_seq_Reduce[OF this(2)] have p2: "reduce 2 (applyFn h (Some Proj2)) sB = Inr sA" .
    from sep(2) s obtain w where w: "psResults s2 = psResults s1 @ [w]"
      unfolding oneValue_def by blast
    from s have rs: "returns h ps pSep s1 (Inr s2)" unfolding returns_def by blast
    from inv_AltP[OF b] obtain j4 q2 where d2: "altLookup m2 (peek s2) = Some q2"
      and q2: "parse j4 h ps q2 s2 = Some (Inr sB)" and j4: "j4 < j3" by blast
    from altLookup_entry[OF d2] sep(3)
    consider (stop2) "q2 = ReduceP 0 (Some PushArrFn)" | (again) "q2 = MatchRule r" by blast
    then show ?thesis
    proof cases
      case stop2
      from inv_ReduceP[OF q2[unfolded stop2]] have sB: "sB = s2\<lparr>psResults := psResults s2 @ [JArray []]\<rparr>"
        by (simp add: reduce_pushArr)
      then have "psResults sB = (psResults st @ [v]) @ [w, JArray []]" using v w by simp
      from reduce_proj2[OF this, of h] p2 sB
      have sA: "sA = s2\<lparr>psResults := psResults st @ [v, JArray []]\<rparr>" by simp
      then have "psResults sA = psResults st @ [v, JArray []]" by simp
      from reduce_cons[OF this, of h] c sA
      have "st' = s2\<lparr>psResults := psResults st @ [JArray [v]]\<rparr>" by simp
      moreover have "listMatch h ps r pItem m1 st [v] s2"
        by (rule listMatch.trailing[OF ri v d[unfolded sep(1)] rs w d2[unfolded stop2]])
      ultimately show ?thesis by blast
    next
      case again
      have "j4 < n" using j4 j3 j2 j1 k5 k4 k3 k2 k1 by simp
      from less.IH[OF this q2[unfolded again]] obtain vs s3 where
        l: "listMatch h ps r pItem m1 s2 vs s3"
        and sB: "sB = s3\<lparr>psResults := psResults s2 @ [JArray vs]\<rparr>" by blast
      from sB have "psResults sB = (psResults st @ [v]) @ [w, JArray vs]" using v w by simp
      from reduce_proj2[OF this, of h] p2 sB
      have sA: "sA = s3\<lparr>psResults := psResults st @ [v, JArray vs]\<rparr>" by simp
      then have "psResults sA = psResults st @ [v, JArray vs]" by simp
      from reduce_cons[OF this, of h] c sA
      have "st' = s3\<lparr>psResults := psResults st @ [JArray (v # vs)]\<rparr>" by simp
      moreover have "listMatch h ps r pItem m1 st (v # vs) s3"
        by (rule listMatch.more[OF ri v d[unfolded sep(1)] rs w d2[unfolded again] l])
      ultimately show ?thesis by blast
    qed
  qed
qed

text \<open>The matchers of a token type and of a literal push one value: the token's.\<close>

lemma oneValue_MatchType: "oneValue h ps (MatchType ty)"
  unfolding oneValue_def
proof (intro allI impI)
  fix n s s1 assume "parse n h ps (MatchType ty) s = Some (Inr s1)"
  then have "matchType ty s = Inr s1" by (cases n) auto
  then show "\<exists>v. psResults s1 = psResults s @ [v]"
    by (auto simp: matchType_def nextToken_def push_def split: option.splits if_splits prod.splits)
qed

lemma oneValue_MatchLiteral: "oneValue h ps (MatchLiteral v)"
  unfolding oneValue_def
proof (intro allI impI)
  fix n s s1 assume "parse n h ps (MatchLiteral v) s = Some (Inr s1)"
  then have "matchLiteral v s = Inr s1" by (cases n) auto
  then show "\<exists>v. psResults s1 = psResults s @ [v]"
    by (auto simp: matchLiteral_def nextToken_def push_def split: option.splits if_splits prod.splits)
qed

section \<open>Properties of the simplifier\<close>

lemma map_of_mapSet: "map_of (mapSet k v m) k = Some v"
  by (induction m) auto

text \<open>
  Claim C5, as the code has it. A structure node becomes the sequence of the opening literal,
  the simplified content, the closing literal and a \<^verbatim>\<open>reduce\<close> of arity 3 whose function is
  \<^verbatim>\<open>_2\<close>, the projection of the second argument, whatever reducer the node carries: the
  result does not depend on the node's reducer, and the function returns the content's value.
\<close>

theorem structure_simplified:
  "simplify k st (Structure startToken expr endToken reducer) =
     (case simplify k (snd (addLiteral k startToken st)) expr of
        Inl err \<Rightarrow> Inl err
      | Inr (content, st2) \<Rightarrow>
          Inr (Seq [Literal startToken, content, Literal endToken, Reduce 3 (Some Proj2)],
               snd (addLiteral k endToken st2)))
   \<and> simplify k st (Structure startToken expr endToken reducer)
       = simplify k st (Structure startToken expr endToken None)
   \<and> applyFn h (Some Proj2) [x, y, z] = Inr y"
  by (simp add: addLiteral_def applyFn_def arg_def split: sum.splits prod.splits)

text \<open>
  Claim C5, as the spec states it, fails: for a structure node with a reducer (here a host
  function that returns \<^verbatim>\<open>null\<close>), the \<^verbatim>\<open>reduce\<close> node's function is still \<^verbatim>\<open>_2\<close>; on the values
  of an opening token, a content and a closing token it returns the content, which neither
  composition of the projection with the reducer does.
\<close>

theorem structure_reducer_counterexample:
  "simplify (\<lambda>s. False) newSimplifier (Structure ''('' (TerminalNode ValueT) '')'' (Some (UserFn 0)))
     = Inr (Seq [Literal ''('', Value, Literal '')'', Reduce 3 (Some Proj2)],
            newSimplifier\<lparr>operatorSet := [''('', '')'']\<rparr>)
   \<and> applyFn \<lparr>callFn = (\<lambda>f args. Inr JNull), iterHost = (\<lambda>n. None)\<rparr> (Some Proj2)
        [JString ''('', JNumber ''1'', JString '')''] = Inr (JNumber ''1'')
   \<and> specStructureFn \<lparr>callFn = (\<lambda>f args. Inr JNull), iterHost = (\<lambda>n. None)\<rparr> (Some (UserFn 0))
        [JString ''('', JNumber ''1'', JString '')''] = Inr JNull
   \<and> specStructureFn' \<lparr>callFn = (\<lambda>f args. Inr JNull), iterHost = (\<lambda>n. None)\<rparr> (Some (UserFn 0))
        [JString ''('', JNumber ''1'', JString '')''] = Inr JUndefined"
  by (simp add: addLiteral_def newSimplifier_def setAdd_def applyFn_def arg_def
      specStructureFn_def specStructureFn'_def)

lemma simplify_sepBy1:
  assumes "simplify k (st\<lparr>symbolCount := Suc (symbolCount st)\<rparr>) item = Inr (item', st1)"
    and "simplify k st1 sep = Inr (sep', st2)"
  shows "simplify k st (SepBy1 item sep) =
           Inr (Nonterminal (symbolCount st),
                st2\<lparr>ruleMap := mapSet (symbolCount st) (sepRule (symbolCount st) item' sep') (ruleMap st2)\<rparr>)"
  using assms by (simp add: Let_def)

lemma simplify_sepBy0:
  assumes "simplify k (st\<lparr>symbolCount := Suc (symbolCount st)\<rparr>) item = Inr (item', st1)"
    and "simplify k st1 sep = Inr (sep', st2)"
  shows "simplify k st (SepBy0 item sep) =
           Inr (Alt [Nonterminal (symbolCount st), Reduce 0 (Some PushArrFn)],
                st2\<lparr>ruleMap := mapSet (symbolCount st) (sepRule (symbolCount st) item' sep') (ruleMap st2)\<rparr>)"
  using assms by (simp add: Let_def orArr_def pushArr_def)


lemma keys_mapSet: "fst ` set (mapSet k v m) = insert k (fst ` set m)"
proof (induction m)
  case Nil
  then show ?case by simp
next
  case (Cons p m)
  obtain a b where p: "p = (a, b)" by (cases p)
  show ?case using Cons p by (cases "a = k") (simp_all add: insert_commute)
qed

lemma range_chain:
  fixes a b c :: nat
  assumes "A2 \<subseteq> A1 \<union> {b..<c}" and "A1 \<subseteq> A0 \<union> {a..<b}" and "a \<le> b" and "b \<le> c"
  shows "A2 \<subseteq> A0 \<union> {a..<c}"
proof
  fix x assume "x \<in> A2"
  then have "x \<in> A1 \<or> (b \<le> x \<and> x < c)" using assms(1) by auto
  then show "x \<in> A0 \<union> {a..<c}"
  proof
    assume "x \<in> A1"
    then have "x \<in> A0 \<or> (a \<le> x \<and> x < b)" using assms(2) by auto
    then show ?thesis using assms(4) by auto
  next
    assume "b \<le> x \<and> x < c"
    then show ?thesis using assms(3) by auto
  qed
qed


lemma addLiteral_frame:
  "addLiteral k v st = (n, st') \<Longrightarrow> symbolCount st' = symbolCount st \<and> ruleMap st' = ruleMap st"
  by (auto simp: addLiteral_def split: if_splits)

lemma simplify_keys:
  "simplify k st node = Inr (n', st') \<Longrightarrow>
     symbolCount st \<le> symbolCount st' \<and>
     fst ` set (ruleMap st') \<subseteq> fst ` set (ruleMap st) \<union> {symbolCount st ..< symbolCount st'}"
  "simplifyList k st es = Inr (es', st') \<Longrightarrow>
     symbolCount st \<le> symbolCount st' \<and>
     fst ` set (ruleMap st') \<subseteq> fst ` set (ruleMap st) \<union> {symbolCount st ..< symbolCount st'}"
  "addRules k st r rules = Inr st' \<Longrightarrow>
     symbolCount st \<le> symbolCount st' \<and>
     fst ` set (ruleMap st') \<subseteq> fst ` set (ruleMap st) \<union> {symbolCount st ..< symbolCount st'}
        \<union> {r ..< r + length rules}"
proof (induction k st node and k st es and k st r rules arbitrary: n' st' and es' st' and st'
    rule: simplify_simplifyList_addRules.induct)
  case (1 k st message)
  then show ?case by simp
next
  case (2 k st rules)
  let ?c = "symbolCount st"
  let ?st1 = "st\<lparr>symbolCount := ?c + length rules,
                   scopeStack := scopeStack st @ [buildScope rules ?c []]\<rparr>"
  from "2.prems" have ne: "rules \<noteq> []" by (auto split: if_splits)
  from "2.prems" ne obtain st2 where a: "addRules k ?st1 ?c rules = Inr st2"
    and st': "st' = st2\<lparr>scopeStack := butlast (scopeStack st2)\<rparr>"
    by (auto simp: Let_def split: sum.splits)
  from "2.IH"[OF ne refl refl a] have le: "?c + length rules \<le> symbolCount st2"
    and sub: "fst ` set (ruleMap st2) \<subseteq> fst ` set (ruleMap st) \<union> {?c + length rules ..< symbolCount st2}
        \<union> {?c ..< ?c + length rules}" by auto
  have "fst ` set (ruleMap st2) \<subseteq> fst ` set (ruleMap st) \<union> {?c ..< symbolCount st2}"
  proof
    fix x assume "x \<in> fst ` set (ruleMap st2)"
    with sub have "x \<in> fst ` set (ruleMap st) \<union> {?c + length rules ..< symbolCount st2}
        \<union> {?c ..< ?c + length rules}" by (rule subsetD)
    then have "x \<in> fst ` set (ruleMap st) \<or> (?c + length rules \<le> x \<and> x < symbolCount st2)
        \<or> (?c \<le> x \<and> x < ?c + length rules)" by (elim UnE) simp_all
    then show "x \<in> fst ` set (ruleMap st) \<union> {?c ..< symbolCount st2}"
      using le by auto
  qed
  then show ?case using st' le by simp
next
  case (6 k st startToken expr endToken reducer)
  obtain o1 st1 where a1: "addLiteral k startToken st = (o1, st1)" by force
  with "6.prems" obtain content st2 where s: "simplify k st1 expr = Inr (content, st2)"
    by (auto split: sum.splits prod.splits)
  obtain c3 st3 where a3: "addLiteral k endToken st2 = (c3, st3)" by force
  with "6.prems" a1 s have st': "st' = st3" by simp
  from "6.IH"[OF a1[symmetric] s] addLiteral_frame[OF a1] addLiteral_frame[OF a3] st'
  show ?case by simp
next
  case (12 k st expr separator)
  let ?c = "symbolCount st"
  from "12.prems" obtain e1 st1 where s1: "simplify k (st\<lparr>symbolCount := Suc ?c\<rparr>) expr = Inr (e1, st1)"
    by (auto simp: Let_def split: sum.splits)
  with "12.prems" obtain e2 st2 where s2: "simplify k st1 separator = Inr (e2, st2)"
    by (auto simp: Let_def split: sum.splits)
  from "12.prems" s1 s2 have st': "st' = st2\<lparr>ruleMap := mapSet ?c (sepRule ?c e1 e2) (ruleMap st2)\<rparr>"
    by (simp add: Let_def)
  from "12.IH"(1)[OF refl s1] have i1: "Suc ?c \<le> symbolCount st1"
    "fst ` set (ruleMap st1) \<subseteq> fst ` set (ruleMap st) \<union> {Suc ?c ..< symbolCount st1}" by auto
  from "12.IH"(2)[OF refl s1 refl s2] have i2: "symbolCount st1 \<le> symbolCount st2"
    "fst ` set (ruleMap st2) \<subseteq> fst ` set (ruleMap st1) \<union> {symbolCount st1 ..< symbolCount st2}" by auto
  from range_chain[OF i2(2) i1(2) i1(1) i2(1)]
  have "fst ` set (ruleMap st2) \<subseteq> fst ` set (ruleMap st) \<union> {Suc ?c ..< symbolCount st2}" .
  then have "insert ?c (fst ` set (ruleMap st2)) \<subseteq> fst ` set (ruleMap st) \<union> {?c ..< symbolCount st2}"
    using i1(1) i2(1) by auto
  then show ?case unfolding st' using i1(1) i2(1) by (simp add: keys_mapSet)
next
  case (13 k st expr separator)
  let ?c = "symbolCount st"
  from "13.prems" obtain e1 st1 where s1: "simplify k (st\<lparr>symbolCount := Suc ?c\<rparr>) expr = Inr (e1, st1)"
    by (auto simp: Let_def split: sum.splits)
  with "13.prems" obtain e2 st2 where s2: "simplify k st1 separator = Inr (e2, st2)"
    by (auto simp: Let_def split: sum.splits)
  from "13.prems" s1 s2 have st': "st' = st2\<lparr>ruleMap := mapSet ?c (sepRule ?c e1 e2) (ruleMap st2)\<rparr>"
    by (simp add: Let_def)
  from "13.IH"(1)[OF refl s1] have i1: "Suc ?c \<le> symbolCount st1"
    "fst ` set (ruleMap st1) \<subseteq> fst ` set (ruleMap st) \<union> {Suc ?c ..< symbolCount st1}" by auto
  from "13.IH"(2)[OF refl s1 refl s2] have i2: "symbolCount st1 \<le> symbolCount st2"
    "fst ` set (ruleMap st2) \<subseteq> fst ` set (ruleMap st1) \<union> {symbolCount st1 ..< symbolCount st2}" by auto
  from range_chain[OF i2(2) i1(2) i1(1) i2(1)]
  have "fst ` set (ruleMap st2) \<subseteq> fst ` set (ruleMap st) \<union> {Suc ?c ..< symbolCount st2}" .
  then have "insert ?c (fst ` set (ruleMap st2)) \<subseteq> fst ` set (ruleMap st) \<union> {?c ..< symbolCount st2}"
    using i1(1) i2(1) by auto
  then show ?case unfolding st' using i1(1) i2(1) by (simp add: keys_mapSet)
next
  case (15 k st e es)
  from "15.prems" obtain e1 st1 where s1: "simplify k st e = Inr (e1, st1)"
    by (auto split: sum.splits)
  with "15.prems" obtain es2 where s2: "simplifyList k st1 es = Inr (es2, st')"
    by (auto split: sum.splits)
  from "15.IH"(1)[OF s1] have i1: "symbolCount st \<le> symbolCount st1"
    "fst ` set (ruleMap st1) \<subseteq> fst ` set (ruleMap st) \<union> {symbolCount st ..< symbolCount st1}" by auto
  from "15.IH"(2)[OF s1 refl s2] have i2: "symbolCount st1 \<le> symbolCount st'"
    "fst ` set (ruleMap st') \<subseteq> fst ` set (ruleMap st1) \<union> {symbolCount st1 ..< symbolCount st'}" by auto
  from range_chain[OF i2(2) i1(2) i1(1) i2(1)] i1(1) i2(1)
  show ?case by simp
next
  case (17 k st r name expr rules)
  from "17.prems" obtain body st1 where s1: "simplify k st expr = Inr (body, st1)"
    by (auto split: sum.splits)
  with "17.prems" have s2: "addRules k (st1\<lparr>ruleMap := mapSet r body (ruleMap st1)\<rparr>) (Suc r) rules = Inr st'"
    by simp
  from "17.IH"(1)[OF s1] have i1: "symbolCount st \<le> symbolCount st1"
    "fst ` set (ruleMap st1) \<subseteq> fst ` set (ruleMap st) \<union> {symbolCount st ..< symbolCount st1}" by auto
  from "17.IH"(2)[OF s1 refl s2] have i2: "symbolCount st1 \<le> symbolCount st'"
    "fst ` set (ruleMap st') \<subseteq> insert r (fst ` set (ruleMap st1)) \<union> {symbolCount st1 ..< symbolCount st'}
        \<union> {Suc r ..< Suc r + length rules}" by (auto simp: keys_mapSet)
  have "fst ` set (ruleMap st') \<subseteq> fst ` set (ruleMap st) \<union> {symbolCount st ..< symbolCount st'}
        \<union> {r ..< r + length ((name, expr) # rules)}"
  proof
    fix x assume "x \<in> fst ` set (ruleMap st')"
    with i2(2) have "x \<in> insert r (fst ` set (ruleMap st1)) \<union> {symbolCount st1 ..< symbolCount st'}
        \<union> {Suc r ..< Suc r + length rules}" by (rule subsetD)
    then consider (a) "x = r" | (b) "x \<in> fst ` set (ruleMap st1)"
      | (c) "symbolCount st1 \<le> x \<and> x < symbolCount st'"
      | (d) "Suc r \<le> x \<and> x < Suc r + length rules"
      by (elim UnE insertE) simp_all
    then show "x \<in> fst ` set (ruleMap st) \<union> {symbolCount st ..< symbolCount st'}
        \<union> {r ..< r + length ((name, expr) # rules)}"
    proof cases
      case a
      then show ?thesis by simp
    next
      case b
      with i1(2) have "x \<in> fst ` set (ruleMap st) \<union> {symbolCount st ..< symbolCount st1}"
        by (rule subsetD)
      then have "x \<in> fst ` set (ruleMap st) \<or> (symbolCount st \<le> x \<and> x < symbolCount st1)"
        by (elim UnE) simp_all
      then show ?thesis using i2(1) by auto
    next
      case c
      then show ?thesis using i1(1) by auto
    next
      case d
      then show ?thesis by auto
    qed
  qed
  then show ?case using i1(1) i2(1) by simp
qed (auto simp: addLiteral_def split: sum.splits prod.splits option.splits if_splits)



lemma simplifyAll_sepBy1:
  "simplifyAll k (SepBy1 (TerminalNode ValueT) (LiteralNode s)) =
     Inr (2, [(3, sepRule 3 Value (Literal s)), (2, Nonterminal 3),
              (0, Alt (if k s then [Literal s] else [])),
              (1, Alt (if k s then [] else [Literal s]))],
          if k s then [s] else [], if k s then [] else [s])"
  by (simp add: simplifyAll_def newSimplifier_def Let_def addLiteral_def setAdd_def createAlts_def)

lemma simplifyAll_sepBy0:
  "simplifyAll k (SepBy0 (TerminalNode ValueT) (LiteralNode s)) =
     Inr (2, [(3, sepRule 3 Value (Literal s)), (2, Alt [Nonterminal 3, Reduce 0 (Some PushArrFn)]),
              (0, Alt (if k s then [Literal s] else [])),
              (1, Alt (if k s then [] else [Literal s]))],
          if k s then [s] else [], if k s then [] else [s])"
  by (simp add: simplifyAll_def newSimplifier_def Let_def addLiteral_def setAdd_def createAlts_def
      orArr_def pushArr_def)

lemma compile_sepBy1:
  "compileRuleset [(3, sepRule 3 Value (Literal s)), (2, Nonterminal 3),
              (0, Alt (if b then [Literal s] else [])),
              (1, Alt (if b then [] else [Literal s]))]
   = Inr [(3, sepParser 3 s), (2, MatchRule 3),
          (0, AltP (if b then [(brandLiteral s, MatchLiteral s)] else [])),
          (1, AltP (if b then [] else [(brandLiteral s, MatchLiteral s)]))]"
  by (cases b)
     (simp_all add: compileRuleset_def sepRule_def orArr_def pushArr_def get.simps setDelete_def setAdd_def
      newSet_def sepParser_def)

lemma compile_sepBy0:
  "compileRuleset [(3, sepRule 3 Value (Literal s)), (2, Alt [Nonterminal 3, Reduce 0 (Some PushArrFn)]),
              (0, Alt (if b then [Literal s] else [])),
              (1, Alt (if b then [] else [Literal s]))]
   = Inr [(3, sepParser 3 s),
          (2, AltP [(brandType ''value'', MatchRule 3), (brandEof, ReduceP 0 (Some PushArrFn))]),
          (0, AltP (if b then [(brandLiteral s, MatchLiteral s)] else [])),
          (1, AltP (if b then [] else [(brandLiteral s, MatchLiteral s)]))]"
  by (cases b)
     (simp_all add: compileRuleset_def sepRule_def orArr_def pushArr_def get.simps setDelete_def setAdd_def
      newSet_def sepParser_def)

lemma createParser_sepBy1:
  "createParser k (SepBy1 (TerminalNode ValueT) (LiteralNode s)) =
     Inr ([(3, sepParser 3 s), (2, MatchRule 3),
          (0, AltP (if k s then [(brandLiteral s, MatchLiteral s)] else [])),
          (1, AltP (if k s then [] else [(brandLiteral s, MatchLiteral s)]))], MatchRule 3)"
  by (cases "k s")
     (simp_all add: createParser_def simplifyAll_sepBy1
        compile_sepBy1[of s True, simplified] compile_sepBy1[of s False, simplified])

lemma createParser_sepBy0:
  "createParser k (SepBy0 (TerminalNode ValueT) (LiteralNode s)) =
     Inr ([(3, sepParser 3 s),
          (2, AltP [(brandType ''value'', MatchRule 3), (brandEof, ReduceP 0 (Some PushArrFn))]),
          (0, AltP (if k s then [(brandLiteral s, MatchLiteral s)] else [])),
          (1, AltP (if k s then [] else [(brandLiteral s, MatchLiteral s)]))],
          AltP [(brandType ''value'', MatchRule 3), (brandEof, ReduceP 0 (Some PushArrFn))])"
  by (cases "k s")
     (simp_all add: createParser_def simplifyAll_sepBy0
        compile_sepBy0[of s True, simplified] compile_sepBy0[of s False, simplified])

lemma sepTokens_length: "length (sepTokens s vs) = 2 * length vs - 1"
  by (induction s vs rule: sepTokens.induct) auto

lemma sepTokens_hd: "vs \<noteq> [] \<Longrightarrow> \<exists>v rest. sepTokens s vs = valueToken v # rest"
  by (induction s vs rule: sepTokens.induct) auto

lemma run_MatchRule_sep:
  assumes "map_of ps 3 = Some (sepParser 3 s)" and "vs \<noteq> []"
  shows "returns h ps (MatchRule 3) (initState (sepTokens s vs))
      (Inr \<lparr>psTokens = sepTokens s vs, psIndex = length (sepTokens s vs), psResults = [JArray vs]\<rparr>)"
  using sep_list_parse[OF assms(1)[unfolded sepParser_def] assms(2), of h "[]" "[]"]
  by (simp add: initState_def)

lemma runParser_returns:
  assumes "returns h ps p (initState toks) (Inr st)"
  shows "\<exists>n. runParser n h ps p toks = Some (Inr (done' st))"
proof -
  from assms obtain n where "parse n h ps p (initState toks) = Some (Inr st)"
    unfolding returns_def ..
  then have "runParser n h ps p toks = Some (Inr (done' st))"
    by (simp add: runParser_def)
  then show ?thesis ..
qed

lemma run_sepBy1:
  assumes "map_of ps 3 = Some (sepParser 3 s)" and "vs \<noteq> []"
  shows "\<exists>n. runParser n h ps (MatchRule 3) (sepTokens s vs) = Some (Inr (JArray vs))"
  using runParser_returns[OF run_MatchRule_sep[OF assms, of h]]
  by (simp add: done'_def)

lemma run_sepBy0:
  assumes "map_of ps 3 = Some (sepParser 3 s)"
  shows "(\<exists>n. runParser n h ps (AltP [(brandType ''value'', MatchRule 3), (brandEof, ReduceP 0 (Some PushArrFn))]) []
            = Some (Inr (JArray [])))
       \<and> (\<forall>vs. vs \<noteq> [] \<longrightarrow>
            (\<exists>n. runParser n h ps (AltP [(brandType ''value'', MatchRule 3), (brandEof, ReduceP 0 (Some PushArrFn))])
                (sepTokens s vs) = Some (Inr (JArray vs))))"
proof (intro conjI allI impI)
  let ?m = "[(brandType ''value'', MatchRule 3), (brandEof, ReduceP 0 (Some PushArrFn))]"
  have l: "altLookup ?m (peek (initState [])) = Some (ReduceP 0 (Some PushArrFn))"
    by (simp add: initState_def altLookup_def peek_def brandToken_def)
  have r: "reduce 0 (applyFn h (Some PushArrFn)) (initState [])
      = Inr \<lparr>psTokens = [], psIndex = 0, psResults = [JArray []]\<rparr>"
    by (simp add: initState_def reduce_def applyFn_def)
  have "returns h ps (ReduceP 0 (Some PushArrFn)) (initState [])
      (Inr \<lparr>psTokens = [], psIndex = 0, psResults = [JArray []]\<rparr>)"
    using returns_ReduceP[of h ps 0 "Some PushArrFn" "initState []"] r by simp
  from runParser_returns[OF returns_AltP[OF l this]]
  show "\<exists>n. runParser n h ps (AltP ?m) [] = Some (Inr (JArray []))"
    by (simp add: done'_def)
next
  fix vs :: "jsval list"
  let ?m = "[(brandType ''value'', MatchRule 3), (brandEof, ReduceP 0 (Some PushArrFn))]"
  assume ne: "vs \<noteq> []"
  from sepTokens_hd[OF ne, of s] obtain v rest where "sepTokens s vs = valueToken v # rest"
    by blast
  then have l: "altLookup ?m (peek (initState (sepTokens s vs))) = Some (MatchRule 3)"
    by (simp add: altLookup_def peek_def initState_def brandToken_def valueToken_def)
  from runParser_returns[OF returns_AltP[OF l run_MatchRule_sep[OF assms ne, of h]]]
  show "\<exists>n. runParser n h ps (AltP ?m) (sepTokens s vs) = Some (Inr (JArray vs))"
    by (simp add: done'_def)
qed

text \<open>
  What \<^verbatim>\<open>compile\<close> makes of the rule of a list, for any item and separator: the parts of a
  compiled \<^verbatim>\<open>seq\<close> are compiled from its elements, the entries of a compiled \<^verbatim>\<open>alt\<close> from its
  branches, and every rule of the table is compiled from its node.
\<close>

lemma mapSet_set: "set (mapSet k v m) \<subseteq> insert (k, v) (set m)"
  by (induction m) (auto split: if_splits)

lemma map_of_mapSet_other: "k' \<noteq> k \<Longrightarrow> map_of (mapSet k v m) k' = map_of m k'"
  by (induction m) auto

lemma compileTerminals_entries:
  "compileTerminals R c e ts pm = (Inr pm', c') \<Longrightarrow> x \<in> set pm'
   \<Longrightarrow> x \<in> set pm \<or> compiles R e (snd x)"
proof (induction ts arbitrary: c pm)
  case Nil
  then show ?case by simp
next
  case (Cons t ts)
  from Cons.prems(1) obtain p c1 where p: "compile R c e = (Inr p, c1)"
    and r: "compileTerminals R c1 e ts (mapSet t p pm) = (Inr pm', c')"
    by (auto split: prod.splits sum.splits)
  from Cons.IH[OF r Cons.prems(2)] have "x \<in> set (mapSet t p pm) \<or> compiles R e (snd x)" .
  then show ?case
  proof
    assume "x \<in> set (mapSet t p pm)"
    with mapSet_set[of t p pm] have "x = (t, p) \<or> x \<in> set pm" by auto
    then show ?thesis using p by (auto simp: compiles_def)
  qed simp
qed

lemma compileAlt_entries:
  "compileAlt R c es pm = (Inr pm', c') \<Longrightarrow> x \<in> set pm'
   \<Longrightarrow> x \<in> set pm \<or> (\<exists>e \<in> set es. compiles R e (snd x))"
proof (induction es arbitrary: c pm)
  case Nil
  then show ?case by simp
next
  case (Cons e es)
  from Cons.prems(1) obtain s c1 pm1 c2 where g: "get R c e [] = (Inr s, c1)"
    and t: "compileTerminals R c1 e s pm = (Inr pm1, c2)"
    and r: "compileAlt R c2 es pm1 = (Inr pm', c')"
    by (auto split: prod.splits sum.splits)
  from Cons.IH[OF r Cons.prems(2)]
  have "x \<in> set pm1 \<or> (\<exists>e \<in> set es. compiles R e (snd x))" .
  then show ?case
  proof
    assume "x \<in> set pm1"
    from compileTerminals_entries[OF t this] show ?thesis by auto
  qed auto
qed

lemma compile_Alt_entries:
  assumes "compile R c (Alt es) = (Inr p, c')"
  shows "\<exists>m. p = AltP m \<and> (\<forall>x \<in> set m. \<exists>e \<in> set es. compiles R e (snd x))"
proof -
  from assms obtain s c1 m where "compileAlt R c1 es [] = (Inr m, c')" and p: "p = AltP m"
    by (auto split: prod.splits sum.splits)
  from compileAlt_entries[OF this(1)] p show ?thesis by auto
qed

lemma compile_Seq3:
  assumes "compile R c (Seq [a, b, d]) = (Inr p, c')"
  shows "\<exists>pa pb pd. p = SeqP [pa, pb, pd] \<and> compiles R a pa \<and> compiles R b pb \<and> compiles R d pd"
proof -
  from assms obtain c0 pa c1 pb c2 pd where "compile R c0 a = (Inr pa, c1)"
    "compile R c1 b = (Inr pb, c2)" "compile R c2 d = (Inr pd, c')" "p = SeqP [pa, pb, pd]"
    by (auto split: prod.splits sum.splits)
  then show ?thesis unfolding compiles_def by blast
qed

lemma compiles_Reduce: "compiles R (Reduce a f) p \<Longrightarrow> p = ReduceP a f"
  by (auto simp: compiles_def)

lemma compiles_Nonterminal: "compiles R (Nonterminal v) p \<Longrightarrow> p = MatchRule v"
  by (auto simp: compiles_def)

lemma compiles_sepRule:
  assumes "compiles R (sepRule r item' sep') p"
  shows "\<exists>pItem m1. p = SeqP [pItem, AltP m1, ReduceP 2 (Some ConsFn)] \<and> compiles R item' pItem
           \<and> listEntries R r sep' m1"
proof -
  let ?inner = "Seq [sep', Alt [Nonterminal r, Reduce 0 (Some PushArrFn)], Reduce 2 (Some Proj2)]"
  from assms obtain c c' where
    "compile R c (Seq [item', Alt [?inner, Reduce 0 (Some PushArrFn)], Reduce 2 (Some ConsFn)]) = (Inr p, c')"
    by (auto simp: compiles_def sepRule_def orArr_def pushArr_def)
  from compile_Seq3[OF this] obtain pItem pb pd where p: "p = SeqP [pItem, pb, pd]"
    and i: "compiles R item' pItem"
    and b: "compiles R (Alt [?inner, Reduce 0 (Some PushArrFn)]) pb"
    and d: "compiles R (Reduce 2 (Some ConsFn)) pd" by blast
  from d have pd: "pd = ReduceP 2 (Some ConsFn)" by (rule compiles_Reduce)
  from b obtain c1 c2 where "compile R c1 (Alt [?inner, Reduce 0 (Some PushArrFn)]) = (Inr pb, c2)"
    by (auto simp: compiles_def)
  from compile_Alt_entries[OF this] obtain m1 where pb: "pb = AltP m1"
    and e1: "\<forall>x \<in> set m1. \<exists>e \<in> set [?inner, Reduce 0 (Some PushArrFn)]. compiles R e (snd x)"
    by blast
  have "listEntries R r sep' m1"
    unfolding listEntries_def
  proof
    fix x assume "x \<in> set m1"
    with e1 have "compiles R ?inner (snd x) \<or> compiles R (Reduce 0 (Some PushArrFn)) (snd x)"
      by auto
    then show "snd x = ReduceP 0 (Some PushArrFn) \<or>
        (\<exists>pSep m2. snd x = SeqP [pSep, AltP m2, ReduceP 2 (Some Proj2)] \<and> compiles R sep' pSep \<and>
           (\<forall>y \<in> set m2. snd y = MatchRule r \<or> snd y = ReduceP 0 (Some PushArrFn)))"
    proof
      assume "compiles R ?inner (snd x)"
      then obtain c3 c4 where "compile R c3 ?inner = (Inr (snd x), c4)"
        by (auto simp: compiles_def)
      from compile_Seq3[OF this] obtain pSep pb' pd' where x: "snd x = SeqP [pSep, pb', pd']"
        and s: "compiles R sep' pSep"
        and b': "compiles R (Alt [Nonterminal r, Reduce 0 (Some PushArrFn)]) pb'"
        and d': "compiles R (Reduce 2 (Some Proj2)) pd'" by blast
      from d' have pd': "pd' = ReduceP 2 (Some Proj2)" by (rule compiles_Reduce)
      from b' obtain c5 c6 where
        "compile R c5 (Alt [Nonterminal r, Reduce 0 (Some PushArrFn)]) = (Inr pb', c6)"
        by (auto simp: compiles_def)
      from compile_Alt_entries[OF this] obtain m2 where pb': "pb' = AltP m2"
        and e2: "\<forall>y \<in> set m2. \<exists>e \<in> set [Nonterminal r, Reduce 0 (Some PushArrFn)]. compiles R e (snd y)"
        by blast
      have "\<forall>y \<in> set m2. snd y = MatchRule r \<or> snd y = ReduceP 0 (Some PushArrFn)"
      proof
        fix y assume "y \<in> set m2"
        with e2 have "compiles R (Nonterminal r) (snd y) \<or> compiles R (Reduce 0 (Some PushArrFn)) (snd y)"
          by auto
        then show "snd y = MatchRule r \<or> snd y = ReduceP 0 (Some PushArrFn)"
          using compiles_Nonterminal compiles_Reduce by blast
      qed
      with x s pd' pb' show ?thesis by blast
    next
      assume "compiles R (Reduce 0 (Some PushArrFn)) (snd x)"
      then show ?thesis using compiles_Reduce by blast
    qed
  qed
  with p pb pd i show ?thesis by blast
qed

lemma compileRules_other:
  "compileRules R c rest acc = (Inr ps, c') \<Longrightarrow> k \<notin> fst ` set rest \<Longrightarrow> map_of ps k = map_of acc k"
proof (induction rest arbitrary: c acc)
  case Nil
  then show ?case by simp
next
  case (Cons a rest)
  obtain name node where a: "a = (name, node)" by (cases a)
  from Cons.prems(1) a obtain p c1 where p: "compile R c node = (Inr p, c1)"
    and r: "compileRules R c1 rest (mapSet name p acc) = (Inr ps, c')"
    by (auto split: prod.splits sum.splits)
  from Cons.prems(2) a have k: "k \<noteq> name" "k \<notin> fst ` set rest" by auto
  from Cons.IH[OF r k(2)] map_of_mapSet_other[OF k(1)] show ?case by simp
qed

lemma compileRules_entry:
  "compileRules R c rest acc = (Inr ps, c') \<Longrightarrow> distinct (map fst rest) \<Longrightarrow> (k, e) \<in> set rest
   \<Longrightarrow> \<exists>p. map_of ps k = Some p \<and> compiles R e p"
proof (induction rest arbitrary: c acc)
  case Nil
  then show ?case by simp
next
  case (Cons a rest)
  obtain name node where a: "a = (name, node)" by (cases a)
  from Cons.prems(1) a obtain p c1 where p: "compile R c node = (Inr p, c1)"
    and r: "compileRules R c1 rest (mapSet name p acc) = (Inr ps, c')"
    by (auto split: prod.splits sum.splits)
  from Cons.prems(2) a have d: "distinct (map fst rest)" and n: "name \<notin> fst ` set rest" by auto
  show ?case
  proof (cases "(k, e) = (name, node)")
    case True
    from compileRules_other[OF r n] have "map_of ps name = Some p" by (simp add: map_of_mapSet)
    with True p show ?thesis by (auto simp: compiles_def)
  next
    case False
    with Cons.prems(3) a have "(k, e) \<in> set rest" by auto
    from Cons.IH[OF r d this] show ?thesis .
  qed
qed

lemma compileRuleset_entry:
  assumes "compileRuleset R = Inr ps" and "distinct (map fst R)" and "map_of R k = Some e"
  shows "\<exists>p. map_of ps k = Some p \<and> compiles R e p"
proof -
  obtain c' where "compileRules R Map.empty R [] = (Inr ps, c')"
    using assms(1) by (cases "compileRules R Map.empty R []") (auto simp: compileRuleset_def)
  from compileRules_entry[OF this assms(2) map_of_SomeD[OF assms(3)]] show ?thesis .
qed

lemma list_rule_compiled:
  "(\<forall>R p. compiles R (sepRule r item' sep') p \<longrightarrow>
            (\<exists>pItem m1. p = SeqP [pItem, AltP m1, ReduceP 2 (Some ConsFn)] \<and> compiles R item' pItem
               \<and> listEntries R r sep' m1))
       \<and> (\<forall>R ps. compileRuleset R = Inr ps \<and> distinct (map fst R)
              \<and> map_of R r = Some (sepRule r item' sep') \<longrightarrow>
            (\<exists>pItem m1. map_of ps r = Some (SeqP [pItem, AltP m1, ReduceP 2 (Some ConsFn)])
               \<and> compiles R item' pItem \<and> listEntries R r sep' m1
               \<and> (\<forall>h s vs s'. listMatch h ps r pItem m1 s vs s' \<longrightarrow>
                     returns h ps (MatchRule r) s (Inr (s'\<lparr>psResults := psResults s @ [JArray vs]\<rparr>)))
               \<and> (\<forall>h. oneValue h ps pItem \<and> (\<forall>pSep. compiles R sep' pSep \<longrightarrow> oneValue h ps pSep) \<longrightarrow>
                     (\<forall>n s s''. parse n h ps (MatchRule r) s = Some (Inr s'') \<longrightarrow>
                        (\<exists>vs s'. listMatch h ps r pItem m1 s vs s'
                           \<and> s'' = s'\<lparr>psResults := psResults s @ [JArray vs]\<rparr>)))))
       \<and> (\<forall>R p. compiles R (Alt [Nonterminal r, Reduce 0 (Some PushArrFn)]) p \<longrightarrow>
            (\<exists>m0. p = AltP m0
               \<and> (\<forall>y \<in> set m0. snd y = MatchRule r \<or> snd y = ReduceP 0 (Some PushArrFn))
               \<and> (\<forall>h ps s. altLookup m0 (peek s) = Some (ReduceP 0 (Some PushArrFn)) \<longrightarrow>
                     returns h ps p s (Inr (s\<lparr>psResults := psResults s @ [JArray []]\<rparr>)))
               \<and> (\<forall>h ps s s'. altLookup m0 (peek s) = Some (MatchRule r)
                       \<and> returns h ps (MatchRule r) s (Inr s') \<longrightarrow>
                     returns h ps p s (Inr s'))))"
proof (intro conjI)
  show "\<forall>R p. compiles R (sepRule r item' sep') p \<longrightarrow>
            (\<exists>pItem m1. p = SeqP [pItem, AltP m1, ReduceP 2 (Some ConsFn)] \<and> compiles R item' pItem
               \<and> listEntries R r sep' m1)"
    using compiles_sepRule by blast
  show "\<forall>R ps. compileRuleset R = Inr ps \<and> distinct (map fst R)
              \<and> map_of R r = Some (sepRule r item' sep') \<longrightarrow>
            (\<exists>pItem m1. map_of ps r = Some (SeqP [pItem, AltP m1, ReduceP 2 (Some ConsFn)])
               \<and> compiles R item' pItem \<and> listEntries R r sep' m1
               \<and> (\<forall>h s vs s'. listMatch h ps r pItem m1 s vs s' \<longrightarrow>
                     returns h ps (MatchRule r) s (Inr (s'\<lparr>psResults := psResults s @ [JArray vs]\<rparr>)))
               \<and> (\<forall>h. oneValue h ps pItem \<and> (\<forall>pSep. compiles R sep' pSep \<longrightarrow> oneValue h ps pSep) \<longrightarrow>
                     (\<forall>n s s''. parse n h ps (MatchRule r) s = Some (Inr s'') \<longrightarrow>
                        (\<exists>vs s'. listMatch h ps r pItem m1 s vs s'
                           \<and> s'' = s'\<lparr>psResults := psResults s @ [JArray vs]\<rparr>))))"
  proof (intro allI impI, elim conjE)
    fix R ps
    assume c: "compileRuleset R = Inr ps" and d: "distinct (map fst R)"
      and m: "map_of R r = Some (sepRule r item' sep')"
    from compileRuleset_entry[OF c d m] obtain p where p: "map_of ps r = Some p"
      and cp: "compiles R (sepRule r item' sep') p" by blast
    from compiles_sepRule[OF cp] obtain pItem m1 where
      q: "p = SeqP [pItem, AltP m1, ReduceP 2 (Some ConsFn)]" and i: "compiles R item' pItem"
      and e: "listEntries R r sep' m1" by blast
    from p q have tbl: "map_of ps r = Some (SeqP [pItem, AltP m1, ReduceP 2 (Some ConsFn)])" by simp
    have fw: "\<forall>h s vs s'. listMatch h ps r pItem m1 s vs s' \<longrightarrow>
            returns h ps (MatchRule r) s (Inr (s'\<lparr>psResults := psResults s @ [JArray vs]\<rparr>))"
      using list_rule_parse[OF _ tbl] by blast
    have bw: "\<forall>h. oneValue h ps pItem \<and> (\<forall>pSep. compiles R sep' pSep \<longrightarrow> oneValue h ps pSep) \<longrightarrow>
          (\<forall>n s s''. parse n h ps (MatchRule r) s = Some (Inr s'') \<longrightarrow>
             (\<exists>vs s'. listMatch h ps r pItem m1 s vs s'
                \<and> s'' = s'\<lparr>psResults := psResults s @ [JArray vs]\<rparr>))"
    proof (intro allI impI, elim conjE)
      fix h n s s''
      assume o1: "oneValue h ps pItem"
        and o2: "\<forall>pSep. compiles R sep' pSep \<longrightarrow> oneValue h ps pSep"
        and run: "parse n h ps (MatchRule r) s = Some (Inr s'')"
      have ent: "\<forall>x \<in> set m1. snd x = ReduceP 0 (Some PushArrFn) \<or>
          (\<exists>pSep m2. snd x = SeqP [pSep, AltP m2, ReduceP 2 (Some Proj2)] \<and> oneValue h ps pSep \<and>
             (\<forall>y \<in> set m2. snd y = MatchRule r \<or> snd y = ReduceP 0 (Some PushArrFn)))"
      proof
        fix x assume "x \<in> set m1"
        with e have "snd x = ReduceP 0 (Some PushArrFn) \<or>
          (\<exists>pSep m2. snd x = SeqP [pSep, AltP m2, ReduceP 2 (Some Proj2)] \<and> compiles R sep' pSep \<and>
             (\<forall>y \<in> set m2. snd y = MatchRule r \<or> snd y = ReduceP 0 (Some PushArrFn)))"
          unfolding listEntries_def by blast
        with o2 show "snd x = ReduceP 0 (Some PushArrFn) \<or>
          (\<exists>pSep m2. snd x = SeqP [pSep, AltP m2, ReduceP 2 (Some Proj2)] \<and> oneValue h ps pSep \<and>
             (\<forall>y \<in> set m2. snd y = MatchRule r \<or> snd y = ReduceP 0 (Some PushArrFn)))"
          by blast
      qed
      from list_rule_only[OF tbl ent o1 run]
      show "\<exists>vs s'. listMatch h ps r pItem m1 s vs s'
                \<and> s'' = s'\<lparr>psResults := psResults s @ [JArray vs]\<rparr>" .
    qed
    from tbl i e fw bw
    show "\<exists>pItem m1. map_of ps r = Some (SeqP [pItem, AltP m1, ReduceP 2 (Some ConsFn)])
               \<and> compiles R item' pItem \<and> listEntries R r sep' m1
               \<and> (\<forall>h s vs s'. listMatch h ps r pItem m1 s vs s' \<longrightarrow>
                     returns h ps (MatchRule r) s (Inr (s'\<lparr>psResults := psResults s @ [JArray vs]\<rparr>)))
               \<and> (\<forall>h. oneValue h ps pItem \<and> (\<forall>pSep. compiles R sep' pSep \<longrightarrow> oneValue h ps pSep) \<longrightarrow>
                     (\<forall>n s s''. parse n h ps (MatchRule r) s = Some (Inr s'') \<longrightarrow>
                        (\<exists>vs s'. listMatch h ps r pItem m1 s vs s'
                           \<and> s'' = s'\<lparr>psResults := psResults s @ [JArray vs]\<rparr>)))"
      by blast
  qed
  show "\<forall>R p. compiles R (Alt [Nonterminal r, Reduce 0 (Some PushArrFn)]) p \<longrightarrow>
            (\<exists>m0. p = AltP m0
               \<and> (\<forall>y \<in> set m0. snd y = MatchRule r \<or> snd y = ReduceP 0 (Some PushArrFn))
               \<and> (\<forall>h ps s. altLookup m0 (peek s) = Some (ReduceP 0 (Some PushArrFn)) \<longrightarrow>
                     returns h ps p s (Inr (s\<lparr>psResults := psResults s @ [JArray []]\<rparr>)))
               \<and> (\<forall>h ps s s'. altLookup m0 (peek s) = Some (MatchRule r)
                       \<and> returns h ps (MatchRule r) s (Inr s') \<longrightarrow>
                     returns h ps p s (Inr s')))"
  proof (intro allI impI)
    fix R p
    assume "compiles R (Alt [Nonterminal r, Reduce 0 (Some PushArrFn)]) p"
    then obtain c c' where "compile R c (Alt [Nonterminal r, Reduce 0 (Some PushArrFn)]) = (Inr p, c')"
      by (auto simp: compiles_def)
    from compile_Alt_entries[OF this] obtain m0 where p: "p = AltP m0"
      and e: "\<forall>y \<in> set m0. \<exists>e \<in> set [Nonterminal r, Reduce 0 (Some PushArrFn)]. compiles R e (snd y)"
      by blast
    have 1: "\<forall>y \<in> set m0. snd y = MatchRule r \<or> snd y = ReduceP 0 (Some PushArrFn)"
    proof
      fix y assume "y \<in> set m0"
      with e have "compiles R (Nonterminal r) (snd y) \<or> compiles R (Reduce 0 (Some PushArrFn)) (snd y)"
        by auto
      then show "snd y = MatchRule r \<or> snd y = ReduceP 0 (Some PushArrFn)"
        using compiles_Nonterminal compiles_Reduce by blast
    qed
    have 2: "\<forall>h ps s. altLookup m0 (peek s) = Some (ReduceP 0 (Some PushArrFn)) \<longrightarrow>
                     returns h ps p s (Inr (s\<lparr>psResults := psResults s @ [JArray []]\<rparr>))"
    proof (intro allI impI)
      fix h ps s assume a: "altLookup m0 (peek s) = Some (ReduceP 0 (Some PushArrFn))"
      have "returns h ps (ReduceP 0 (Some PushArrFn)) s (Inr (s\<lparr>psResults := psResults s @ [JArray []]\<rparr>))"
        using returns_ReduceP[of h ps 0 "Some PushArrFn" s] by (simp add: reduce_pushArr)
      from returns_AltP[OF a this] p
      show "returns h ps p s (Inr (s\<lparr>psResults := psResults s @ [JArray []]\<rparr>))" by simp
    qed
    have 3: "\<forall>h ps s s'. altLookup m0 (peek s) = Some (MatchRule r)
                       \<and> returns h ps (MatchRule r) s (Inr s') \<longrightarrow> returns h ps p s (Inr s')"
      using returns_AltP p by blast
    from p 1 2 3
    show "\<exists>m0. p = AltP m0
               \<and> (\<forall>y \<in> set m0. snd y = MatchRule r \<or> snd y = ReduceP 0 (Some PushArrFn))
               \<and> (\<forall>h ps s. altLookup m0 (peek s) = Some (ReduceP 0 (Some PushArrFn)) \<longrightarrow>
                     returns h ps p s (Inr (s\<lparr>psResults := psResults s @ [JArray []]\<rparr>)))
               \<and> (\<forall>h ps s s'. altLookup m0 (peek s) = Some (MatchRule r)
                       \<and> returns h ps (MatchRule r) s (Inr s') \<longrightarrow>
                     returns h ps p s (Inr s'))"
      by blast
  qed
qed

text \<open>
  Claim C6. Let \<open>item'\<close> and \<open>sep'\<close> be the simplified item and separator of a separated list,
  and \<open>r\<close> the symbol the simplifier creates for the node. Both \<^verbatim>\<open>sepBy1\<close> and \<^verbatim>\<open>sepBy0\<close> enter
  one rule \<open>r = item' (sep' r?)?\<close> in the rule table, under a symbol the table did not hold
  (the rule keys of the state are below its symbol count); \<^verbatim>\<open>sepBy1\<close> returns the reference to
  \<open>r\<close>, \<^verbatim>\<open>sepBy0\<close> the alternative of that reference and a \<^verbatim>\<open>reduce\<close> that consumes nothing and
  pushes the empty list. At run time, for a list of values separated by a literal: the parser
  made from \<^verbatim>\<open>sepBy1\<close> returns, on the values \<open>vs\<close> with the separator between them, the list \<open>vs\<close>
  in the order of the input (each rule application conses its item onto the list of the rest);
  the parser made from \<^verbatim>\<open>sepBy0\<close> does the same and returns the empty list on no input.
  For every item and separator: the matcher compiled from the rule is the item's matcher, a
  dispatch table and the \<^verbatim>\<open>reduce\<close> with \<^verbatim>\<open>cons\<close>, the entries of the table being as \<open>listEntries\<close>
  says; in every compiled rule table that holds the rule, whenever the items and separators
  match in turn (\<open>listMatch\<close>), the rule returns with the list of the item values, in the order
  of the input, in place of what they pushed, and, when the item and separator matchers push
  one value each, every normal return of the rule is of this kind; and the alternative of
  \<^verbatim>\<open>sepBy0\<close> compiles to a table that either runs the rule or pushes the empty list and consumes
  nothing.
\<close>

theorem sepBy_simplified:
  assumes item: "simplify k (st\<lparr>symbolCount := Suc (symbolCount st)\<rparr>) item = Inr (item', st1)"
    and sep: "simplify k st1 sep = Inr (sep', st2)"
    and inv: "\<forall>x\<in>fst ` set (ruleMap st). x < symbolCount st"
  shows "simplify k st (SepBy1 item sep) =
           Inr (Nonterminal (symbolCount st),
                st2\<lparr>ruleMap := mapSet (symbolCount st) (sepRule (symbolCount st) item' sep') (ruleMap st2)\<rparr>)
       \<and> simplify k st (SepBy0 item sep) =
           Inr (Alt [Nonterminal (symbolCount st), Reduce 0 (Some PushArrFn)],
                st2\<lparr>ruleMap := mapSet (symbolCount st) (sepRule (symbolCount st) item' sep') (ruleMap st2)\<rparr>)
       \<and> sepRule (symbolCount st) item' sep' =
           Seq [item',
                Alt [Seq [sep', Alt [Nonterminal (symbolCount st), Reduce 0 (Some PushArrFn)],
                          Reduce 2 (Some Proj2)],
                     Reduce 0 (Some PushArrFn)],
                Reduce 2 (Some ConsFn)]
       \<and> symbolCount st \<notin> fst ` set (ruleMap st2)
       \<and> fst ` set (mapSet (symbolCount st) (sepRule (symbolCount st) item' sep') (ruleMap st2))
           = insert (symbolCount st) (fst ` set (ruleMap st2))
       \<and> map_of (mapSet (symbolCount st) (sepRule (symbolCount st) item' sep') (ruleMap st2)) (symbolCount st)
           = Some (sepRule (symbolCount st) item' sep')
       \<and> (\<forall>vs. vs \<noteq> [] \<longrightarrow>
            (\<exists>parsers p n. createParser k' (SepBy1 (TerminalNode ValueT) (LiteralNode s)) = Inr (parsers, p)
               \<and> runParser n h parsers p (sepTokens s vs) = Some (Inr (JArray vs))))
       \<and> (\<exists>parsers p. createParser k' (SepBy0 (TerminalNode ValueT) (LiteralNode s)) = Inr (parsers, p)
            \<and> (\<exists>n. runParser n h parsers p [] = Some (Inr (JArray [])))
            \<and> (\<forall>vs. vs \<noteq> [] \<longrightarrow>
                 (\<exists>n. runParser n h parsers p (sepTokens s vs) = Some (Inr (JArray vs)))))
       \<and> (\<forall>R p. compiles R (sepRule (symbolCount st) item' sep') p \<longrightarrow>
            (\<exists>pItem m1. p = SeqP [pItem, AltP m1, ReduceP 2 (Some ConsFn)] \<and> compiles R item' pItem
               \<and> listEntries R (symbolCount st) sep' m1))
       \<and> (\<forall>R ps. compileRuleset R = Inr ps \<and> distinct (map fst R)
              \<and> map_of R (symbolCount st) = Some (sepRule (symbolCount st) item' sep') \<longrightarrow>
            (\<exists>pItem m1. map_of ps (symbolCount st) = Some (SeqP [pItem, AltP m1, ReduceP 2 (Some ConsFn)])
               \<and> compiles R item' pItem \<and> listEntries R (symbolCount st) sep' m1
               \<and> (\<forall>h s vs s'. listMatch h ps (symbolCount st) pItem m1 s vs s' \<longrightarrow>
                     returns h ps (MatchRule (symbolCount st)) s (Inr (s'\<lparr>psResults := psResults s @ [JArray vs]\<rparr>)))
               \<and> (\<forall>h. oneValue h ps pItem \<and> (\<forall>pSep. compiles R sep' pSep \<longrightarrow> oneValue h ps pSep) \<longrightarrow>
                     (\<forall>n s s''. parse n h ps (MatchRule (symbolCount st)) s = Some (Inr s'') \<longrightarrow>
                        (\<exists>vs s'. listMatch h ps (symbolCount st) pItem m1 s vs s'
                           \<and> s'' = s'\<lparr>psResults := psResults s @ [JArray vs]\<rparr>)))))
       \<and> (\<forall>R p. compiles R (Alt [Nonterminal (symbolCount st), Reduce 0 (Some PushArrFn)]) p \<longrightarrow>
            (\<exists>m0. p = AltP m0
               \<and> (\<forall>y \<in> set m0. snd y = MatchRule (symbolCount st) \<or> snd y = ReduceP 0 (Some PushArrFn))
               \<and> (\<forall>h ps s. altLookup m0 (peek s) = Some (ReduceP 0 (Some PushArrFn)) \<longrightarrow>
                     returns h ps p s (Inr (s\<lparr>psResults := psResults s @ [JArray []]\<rparr>)))
               \<and> (\<forall>h ps s s'. altLookup m0 (peek s) = Some (MatchRule (symbolCount st))
                       \<and> returns h ps (MatchRule (symbolCount st)) s (Inr s') \<longrightarrow>
                     returns h ps p s (Inr s'))))"
proof (intro conjI)
  show "simplify k st (SepBy1 item sep) =
           Inr (Nonterminal (symbolCount st),
                st2\<lparr>ruleMap := mapSet (symbolCount st) (sepRule (symbolCount st) item' sep') (ruleMap st2)\<rparr>)"
    by (rule simplify_sepBy1[OF item sep])
  show "simplify k st (SepBy0 item sep) =
           Inr (Alt [Nonterminal (symbolCount st), Reduce 0 (Some PushArrFn)],
                st2\<lparr>ruleMap := mapSet (symbolCount st) (sepRule (symbolCount st) item' sep') (ruleMap st2)\<rparr>)"
    by (rule simplify_sepBy0[OF item sep])
  show "sepRule (symbolCount st) item' sep' =
           Seq [item',
                Alt [Seq [sep', Alt [Nonterminal (symbolCount st), Reduce 0 (Some PushArrFn)],
                          Reduce 2 (Some Proj2)],
                     Reduce 0 (Some PushArrFn)],
                Reduce 2 (Some ConsFn)]"
    by (simp add: sepRule_def orArr_def pushArr_def)
  show "symbolCount st \<notin> fst ` set (ruleMap st2)"
  proof
    assume a: "symbolCount st \<in> fst ` set (ruleMap st2)"
    from simplify_keys(1)[OF item] have i1: "Suc (symbolCount st) \<le> symbolCount st1"
      "fst ` set (ruleMap st1) \<subseteq> fst ` set (ruleMap st) \<union> {Suc (symbolCount st) ..< symbolCount st1}"
      by auto
    from simplify_keys(1)[OF sep] have i2: "symbolCount st1 \<le> symbolCount st2"
      "fst ` set (ruleMap st2) \<subseteq> fst ` set (ruleMap st1) \<union> {symbolCount st1 ..< symbolCount st2}"
      by auto
    from range_chain[OF i2(2) i1(2) i1(1) i2(1)] a
    have "symbolCount st \<in> fst ` set (ruleMap st) \<union> {Suc (symbolCount st) ..< symbolCount st2}"
      by (rule subsetD)
    then have "symbolCount st \<in> fst ` set (ruleMap st)" by (elim UnE) simp_all
    with inv show False by blast
  qed
  show "fst ` set (mapSet (symbolCount st) (sepRule (symbolCount st) item' sep') (ruleMap st2))
           = insert (symbolCount st) (fst ` set (ruleMap st2))"
    by (rule keys_mapSet)
  show "map_of (mapSet (symbolCount st) (sepRule (symbolCount st) item' sep') (ruleMap st2)) (symbolCount st)
           = Some (sepRule (symbolCount st) item' sep')"
    by (rule map_of_mapSet)
  show "\<forall>vs. vs \<noteq> [] \<longrightarrow>
            (\<exists>parsers p n. createParser k' (SepBy1 (TerminalNode ValueT) (LiteralNode s)) = Inr (parsers, p)
               \<and> runParser n h parsers p (sepTokens s vs) = Some (Inr (JArray vs)))"
  proof (intro allI impI)
    fix vs :: "jsval list" assume ne: "vs \<noteq> []"
    let ?ps = "[(3, sepParser 3 s), (2, MatchRule 3),
          (0, AltP (if k' s then [(brandLiteral s, MatchLiteral s)] else [])),
          (1, AltP (if k' s then [] else [(brandLiteral s, MatchLiteral s)]))]"
    have m: "map_of ?ps 3 = Some (sepParser 3 s)" by simp
    from run_sepBy1[OF m ne, of h] obtain n where
      "runParser n h ?ps (MatchRule 3) (sepTokens s vs) = Some (Inr (JArray vs))" ..
    with createParser_sepBy1[of k' s]
    have "createParser k' (SepBy1 (TerminalNode ValueT) (LiteralNode s)) = Inr (?ps, MatchRule 3)
               \<and> runParser n h ?ps (MatchRule 3) (sepTokens s vs) = Some (Inr (JArray vs))"
      by (intro conjI)
    then show "\<exists>parsers p n. createParser k' (SepBy1 (TerminalNode ValueT) (LiteralNode s)) = Inr (parsers, p)
               \<and> runParser n h parsers p (sepTokens s vs) = Some (Inr (JArray vs))"
      by (intro exI)
  qed
  show "\<exists>parsers p. createParser k' (SepBy0 (TerminalNode ValueT) (LiteralNode s)) = Inr (parsers, p)
            \<and> (\<exists>n. runParser n h parsers p [] = Some (Inr (JArray [])))
            \<and> (\<forall>vs. vs \<noteq> [] \<longrightarrow>
                 (\<exists>n. runParser n h parsers p (sepTokens s vs) = Some (Inr (JArray vs))))"
  proof -
    let ?alt = "AltP [(brandType ''value'', MatchRule 3), (brandEof, ReduceP 0 (Some PushArrFn))]"
    let ?ps = "[(3, sepParser 3 s), (2, ?alt),
          (0, AltP (if k' s then [(brandLiteral s, MatchLiteral s)] else [])),
          (1, AltP (if k' s then [] else [(brandLiteral s, MatchLiteral s)]))]"
    have m: "map_of ?ps 3 = Some (sepParser 3 s)" by simp
    from createParser_sepBy0[of k' s] run_sepBy0[OF m, of h]
    have "createParser k' (SepBy0 (TerminalNode ValueT) (LiteralNode s)) = Inr (?ps, ?alt)
            \<and> (\<exists>n. runParser n h ?ps ?alt [] = Some (Inr (JArray [])))
            \<and> (\<forall>vs. vs \<noteq> [] \<longrightarrow>
                 (\<exists>n. runParser n h ?ps ?alt (sepTokens s vs) = Some (Inr (JArray vs))))"
      by (intro conjI) (assumption, erule conjunct1, erule conjunct2)
    then show ?thesis by (intro exI)
  qed
  show "(\<forall>R p. compiles R (sepRule (symbolCount st) item' sep') p \<longrightarrow>
         (\<exists>pItem m1. p = SeqP [pItem, AltP m1, ReduceP 2 (Some ConsFn)] \<and> compiles R item' pItem
            \<and> listEntries R (symbolCount st) sep' m1))"
    by (rule list_rule_compiled[of "symbolCount st" item' sep', THEN conjunct1])
  show "(\<forall>R ps. compileRuleset R = Inr ps \<and> distinct (map fst R)
           \<and> map_of R (symbolCount st) = Some (sepRule (symbolCount st) item' sep') \<longrightarrow>
         (\<exists>pItem m1. map_of ps (symbolCount st) = Some (SeqP [pItem, AltP m1, ReduceP 2 (Some ConsFn)])
            \<and> compiles R item' pItem \<and> listEntries R (symbolCount st) sep' m1
            \<and> (\<forall>h s vs s'. listMatch h ps (symbolCount st) pItem m1 s vs s' \<longrightarrow>
                  returns h ps (MatchRule (symbolCount st)) s (Inr (s'\<lparr>psResults := psResults s @ [JArray vs]\<rparr>)))
            \<and> (\<forall>h. oneValue h ps pItem \<and> (\<forall>pSep. compiles R sep' pSep \<longrightarrow> oneValue h ps pSep) \<longrightarrow>
                  (\<forall>n s s''. parse n h ps (MatchRule (symbolCount st)) s = Some (Inr s'') \<longrightarrow>
                     (\<exists>vs s'. listMatch h ps (symbolCount st) pItem m1 s vs s'
                        \<and> s'' = s'\<lparr>psResults := psResults s @ [JArray vs]\<rparr>)))))"
    by (rule list_rule_compiled[of "symbolCount st" item' sep', THEN conjunct2, THEN conjunct1])
  show "(\<forall>R p. compiles R (Alt [Nonterminal (symbolCount st), Reduce 0 (Some PushArrFn)]) p \<longrightarrow>
         (\<exists>m0. p = AltP m0
            \<and> (\<forall>y \<in> set m0. snd y = MatchRule (symbolCount st) \<or> snd y = ReduceP 0 (Some PushArrFn))
            \<and> (\<forall>h ps s. altLookup m0 (peek s) = Some (ReduceP 0 (Some PushArrFn)) \<longrightarrow>
                  returns h ps p s (Inr (s\<lparr>psResults := psResults s @ [JArray []]\<rparr>)))
            \<and> (\<forall>h ps s s'. altLookup m0 (peek s) = Some (MatchRule (symbolCount st))
                    \<and> returns h ps (MatchRule (symbolCount st)) s (Inr s') \<longrightarrow>
                  returns h ps p s (Inr s'))))"
    by (rule list_rule_compiled[of "symbolCount st" item' sep', THEN conjunct2, THEN conjunct2])
qed

theorem sepBy_simplified_witness:
  "simplify (\<lambda>s. False) (newSimplifier\<lparr>symbolCount := Suc (symbolCount newSimplifier)\<rparr>) (TerminalNode ValueT)
      = Inr (Value, newSimplifier\<lparr>symbolCount := Suc (symbolCount newSimplifier)\<rparr>)
   \<and> simplify (\<lambda>s. False) (newSimplifier\<lparr>symbolCount := Suc (symbolCount newSimplifier)\<rparr>) (LiteralNode '','')
      = Inr (Literal '','', newSimplifier\<lparr>symbolCount := Suc (symbolCount newSimplifier), operatorSet := ['','']\<rparr>)
   \<and> simplify (\<lambda>s. False) newSimplifier (SepBy1 (TerminalNode ValueT) (LiteralNode '',''))
      = Inr (Nonterminal (symbolCount newSimplifier),
             newSimplifier\<lparr>symbolCount := Suc (symbolCount newSimplifier), operatorSet := ['',''],
               ruleMap := mapSet (symbolCount newSimplifier)
                 (sepRule (symbolCount newSimplifier) Value (Literal '','')) []\<rparr>)
   \<and> (\<exists>parsers p n. createParser (\<lambda>s. False) (SepBy1 (TerminalNode ValueT) (LiteralNode '','')) = Inr (parsers, p)
         \<and> runParser n \<lparr>callFn = (\<lambda>f args. Inr JNull), iterHost = (\<lambda>n. None)\<rparr> parsers p
              (sepTokens '','' [JNumber ''1'', JNumber ''2'', JNumber ''3''])
            = Some (Inr (JArray [JNumber ''1'', JNumber ''2'', JNumber ''3''])))
   \<and> returns \<lparr>callFn = (\<lambda>f args. Inr JNull), iterHost = (\<lambda>n. None)\<rparr>
      [(2, SeqP [MatchType ''identifier'',
              AltP [(brandLiteral '','', SeqP [MatchLiteral '','',
                        AltP [(brandType ''identifier'', MatchRule 2), (brandEof, ReduceP 0 (Some PushArrFn))],
                        ReduceP 2 (Some Proj2)]),
                    (brandEof, ReduceP 0 (Some PushArrFn))],
              ReduceP 2 (Some ConsFn)])]
      (MatchRule 2)
      (initState [identifierToken ''a'', operatorToken '','', identifierToken ''b'', operatorToken '',''])
      (Inr \<lparr>psTokens = [identifierToken ''a'', operatorToken '','', identifierToken ''b'', operatorToken '',''],
             psIndex = 4, psResults = [JArray [JString ''a'', JString ''b'']]\<rparr>)"
proof -
  let ?H = "\<lparr>callFn = (\<lambda>f args. Inr JNull), iterHost = (\<lambda>n. None)\<rparr>"
  let ?st = "newSimplifier"
  let ?st1 = "newSimplifier\<lparr>symbolCount := Suc (symbolCount newSimplifier)\<rparr>"
  let ?st2 = "newSimplifier\<lparr>symbolCount := Suc (symbolCount newSimplifier), operatorSet := ['','']\<rparr>"
  have a: "simplify (\<lambda>s. False) (?st\<lparr>symbolCount := Suc (symbolCount ?st)\<rparr>) (TerminalNode ValueT) = Inr (Value, ?st1)"
    by simp
  have b: "simplify (\<lambda>s. False) ?st1 (LiteralNode '','') = Inr (Literal '','', ?st2)"
    by (simp add: addLiteral_def setAdd_def newSimplifier_def)
  have c: "\<forall>x\<in>fst ` set (ruleMap ?st). x < symbolCount ?st"
    by (simp add: newSimplifier_def)
  note t = sepBy_simplified[OF a b c, where k' = "\<lambda>s. False" and s = "'',''"
      and h = "\<lparr>callFn = (\<lambda>f args. Inr JNull), iterHost = (\<lambda>n. None)\<rparr>"]
  have ne: "[JNumber ''1'', JNumber ''2'', JNumber ''3''] \<noteq> []" by simp
  note t1 = t[THEN conjunct1]
  note t7 = t[THEN conjunct2, THEN conjunct2, THEN conjunct2, THEN conjunct2, THEN conjunct2,
      THEN conjunct2, THEN conjunct1, rule_format, OF ne]
  have t1': "simplify (\<lambda>s. False) newSimplifier (SepBy1 (TerminalNode ValueT) (LiteralNode '',''))
      = Inr (Nonterminal (symbolCount newSimplifier),
             newSimplifier\<lparr>symbolCount := Suc (symbolCount newSimplifier), operatorSet := ['',''],
               ruleMap := mapSet (symbolCount newSimplifier)
                 (sepRule (symbolCount newSimplifier) Value (Literal '','')) []\<rparr>)"
    using t1 by (simp add: newSimplifier_def)
  let ?m2 = "[(brandType ''identifier'', MatchRule 2), (brandEof, ReduceP 0 (Some PushArrFn))]"
  let ?inner = "SeqP [MatchLiteral '','', AltP ?m2, ReduceP 2 (Some Proj2)]"
  let ?m1 = "[(brandLiteral '','', ?inner), (brandEof, ReduceP 0 (Some PushArrFn))]"
  let ?ps = "[(2::nat, SeqP [MatchType ''identifier'', AltP ?m1, ReduceP 2 (Some ConsFn)])]"
  let ?R = "[(2::nat, sepRule 2 Identifier (Literal '',''))]"
  let ?toks = "[identifierToken ''a'', operatorToken '','', identifierToken ''b'', operatorToken '','']"
  let ?s0 = "\<lparr>psTokens = ?toks, psIndex = 0, psResults = []\<rparr>"
  let ?s1 = "\<lparr>psTokens = ?toks, psIndex = 1, psResults = [JString ''a'']\<rparr>"
  let ?s2 = "\<lparr>psTokens = ?toks, psIndex = 2, psResults = [JString ''a'', JString '','']\<rparr>"
  let ?s3 = "\<lparr>psTokens = ?toks, psIndex = 3, psResults = [JString ''a'', JString '','', JString ''b'']\<rparr>"
  let ?s4 = "\<lparr>psTokens = ?toks, psIndex = 4,
      psResults = [JString ''a'', JString '','', JString ''b'', JString '','']\<rparr>"
  have ai: "simplify (\<lambda>s. False) (newSimplifier\<lparr>symbolCount := Suc (symbolCount newSimplifier)\<rparr>)
      (TerminalNode IdentifierT) = Inr (Identifier, ?st1)"
    by simp
  have sc: "symbolCount newSimplifier = 2" by (simp add: newSimplifier_def)
  have cr: "compileRuleset ?R = Inr ?ps"
    by (simp add: compileRuleset_def sepRule_def orArr_def pushArr_def get.simps setDelete_def
        setAdd_def newSet_def)
  have hyp: "compileRuleset ?R = Inr ?ps \<and> distinct (map fst ?R)
      \<and> map_of ?R (symbolCount newSimplifier)
          = Some (sepRule (symbolCount newSimplifier) Identifier (Literal '',''))"
    using cr by (simp add: sc)
  note u = sepBy_simplified[OF ai b c, THEN conjunct2, THEN conjunct2, THEN conjunct2,
      THEN conjunct2, THEN conjunct2, THEN conjunct2, THEN conjunct2, THEN conjunct2,
      THEN conjunct2, THEN conjunct1, rule_format, OF hyp]
  from u obtain pItem m1 where
    tbl: "map_of ?ps (symbolCount newSimplifier) = Some (SeqP [pItem, AltP m1, ReduceP 2 (Some ConsFn)])"
    and run: "\<And>h s vs s'. listMatch h ?ps (symbolCount newSimplifier) pItem m1 s vs s' \<Longrightarrow>
        returns h ?ps (MatchRule (symbolCount newSimplifier)) s
          (Inr (s'\<lparr>psResults := psResults s @ [JArray vs]\<rparr>))"
    by blast
  from tbl have pi: "pItem = MatchType ''identifier''" and m1: "m1 = ?m1"
    by (simp_all add: sc)
  have i1': "matchType ''identifier'' ?s0 = Inr ?s1"
    by (simp add: matchType_def nextToken_def peek_def push_def identifierToken_def)
  have i1: "returns ?H ?ps (MatchType ''identifier'') ?s0 (Inr ?s1)"
    using returns_MatchType[of ?H ?ps "''identifier''" ?s0] unfolding i1' .
  have d1: "altLookup ?m1 (peek ?s1) = Some ?inner"
    by (simp add: altLookup_def peek_def brandToken_def operatorToken_def tokText_def)
  have p1': "matchLiteral '','' ?s1 = Inr ?s2"
    by (simp add: matchLiteral_def nextToken_def peek_def push_def operatorToken_def)
  have p1: "returns ?H ?ps (MatchLiteral '','') ?s1 (Inr ?s2)"
    using returns_MatchLiteral[of ?H ?ps "'',''" ?s1] unfolding p1' .
  have e1: "altLookup ?m2 (peek ?s2) = Some (MatchRule 2)"
    by (simp add: altLookup_def peek_def brandToken_def identifierToken_def)
  have i2': "matchType ''identifier'' ?s2 = Inr ?s3"
    by (simp add: matchType_def nextToken_def peek_def push_def identifierToken_def)
  have i2: "returns ?H ?ps (MatchType ''identifier'') ?s2 (Inr ?s3)"
    using returns_MatchType[of ?H ?ps "''identifier''" ?s2] unfolding i2' .
  have d2: "altLookup ?m1 (peek ?s3) = Some ?inner"
    by (simp add: altLookup_def peek_def brandToken_def operatorToken_def tokText_def)
  have p2': "matchLiteral '','' ?s3 = Inr ?s4"
    by (simp add: matchLiteral_def nextToken_def peek_def push_def operatorToken_def)
  have p2: "returns ?H ?ps (MatchLiteral '','') ?s3 (Inr ?s4)"
    using returns_MatchLiteral[of ?H ?ps "'',''" ?s3] unfolding p2' .
  have e2: "altLookup ?m2 (peek ?s4) = Some (ReduceP 0 (Some PushArrFn))"
    by (simp add: altLookup_def peek_def brandToken_def)
  have l2: "listMatch ?H ?ps 2 (MatchType ''identifier'') ?m1 ?s2 [JString ''b''] ?s4"
    by (rule listMatch.trailing[OF i2 _ d2 p2 _ e2]) simp_all
  have l1: "listMatch ?H ?ps 2 (MatchType ''identifier'') ?m1 ?s0 [JString ''a'', JString ''b''] ?s4"
    by (rule listMatch.more[OF i1 _ d1 p1 _ e1 l2]) simp_all
  from run[of ?H ?s0 "[JString ''a'', JString ''b'']" ?s4] l1
  have w: "returns \<lparr>callFn = (\<lambda>f args. Inr JNull), iterHost = (\<lambda>n. None)\<rparr>
      [(2, SeqP [MatchType ''identifier'',
              AltP [(brandLiteral '','', SeqP [MatchLiteral '','',
                        AltP [(brandType ''identifier'', MatchRule 2), (brandEof, ReduceP 0 (Some PushArrFn))],
                        ReduceP 2 (Some Proj2)]),
                    (brandEof, ReduceP 0 (Some PushArrFn))],
              ReduceP 2 (Some ConsFn)])]
      (MatchRule 2)
      (initState [identifierToken ''a'', operatorToken '','', identifierToken ''b'', operatorToken '',''])
      (Inr \<lparr>psTokens = [identifierToken ''a'', operatorToken '','', identifierToken ''b'', operatorToken '',''],
             psIndex = 4, psResults = [JArray [JString ''a'', JString ''b'']]\<rparr>)"
    by (simp add: sc pi m1 initState_def)
  from a b t1' t7 w show ?thesis by (intro conjI)
qed


section \<open>Left recursion and the compiler\<close>

text \<open>
  \<^verbatim>\<open>compile\<close> asks for the first set of a \<^verbatim>\<open>repeat0\<close>, a \<^verbatim>\<open>seq\<close> and an \<^verbatim>\<open>alt\<close> node, and
  the left-recursion check lives in the first-set computation. For a \<^verbatim>\<open>nonterminal\<close> node it
  builds the \<^verbatim>\<open>MatchRule\<close> and asks for nothing. A matcher that refers to a rule whose matcher
  is that same reference never returns.
\<close>

lemma parse_self_reference:
  "map_of parsers r = Some (MatchRule r) \<Longrightarrow> parse n h parsers (MatchRule r) st = None"
  by (induction n) (simp_all add: pushRuleFrame_def)

text \<open>
  The spec's own example, \<open>A = A "x" | "y"\<close>, goes through an \<^verbatim>\<open>alt\<close> and a \<^verbatim>\<open>seq\<close> node and is
  rejected.
\<close>

lemma wrapped_left_recursion_rejected:
  "createParser (\<lambda>s. False)
     (Ruleset [(''A'', AltNode [SeqNode [IdentifierNode ''A'', LiteralNode ''x''] None, LiteralNode ''y''])])
   = Inl (LeftRecursion 3)"
  by (simp add: createParser_def simplifyAll_def newSimplifier_def Let_def createAlts_def
        lookup_def addLiteral_def setAdd_def compileRuleset_def get.simps newSet_def setDelete_def)

text \<open>
  Claim C1 at the grammar \<open>A = A\<close>. The rule is left recursive: it reaches itself without
  consuming a token. The simplifier gives the rule the symbol 3 and the start rule 2 the
  reference to it; every rule of the table compiles, no left-recursion error is raised, and
  \<^verbatim>\<open>createParser\<close> returns a parser. On every input that parser never returns, whatever the
  fuel: in the source, \<^verbatim>\<open>MatchRule.parse\<close> calls itself until the stack overflows.
\<close>

theorem bare_left_recursion_compiles:
  "simplifyAll (\<lambda>s. False) (Ruleset [(''A'', IdentifierNode ''A'')])
     = Inr (2, [(3, Nonterminal 3), (2, Nonterminal 3), (0, Alt []), (1, Alt [])], [], [])
   \<and> compileRuleset [(3, Nonterminal 3), (2, Nonterminal 3), (0, Alt []), (1, Alt [])]
     = Inr [(3, MatchRule 3), (2, MatchRule 3), (0, AltP []), (1, AltP [])]
   \<and> createParser (\<lambda>s. False) (Ruleset [(''A'', IdentifierNode ''A'')])
     = Inr ([(3, MatchRule 3), (2, MatchRule 3), (0, AltP []), (1, AltP [])], MatchRule 3)
   \<and> (\<forall>n toks. runParser n \<lparr>callFn = (\<lambda>f args. Inr JNull), iterHost = (\<lambda>n. None)\<rparr>
          [(3, MatchRule 3), (2, MatchRule 3), (0, AltP []), (1, AltP [])] (MatchRule 3) toks = None)"
proof -
  have s: "simplifyAll (\<lambda>s. False) (Ruleset [(''A'', IdentifierNode ''A'')])
     = Inr (2, [(3, Nonterminal 3), (2, Nonterminal 3), (0, Alt []), (1, Alt [])], [], [])"
    by (simp add: simplifyAll_def newSimplifier_def Let_def createAlts_def lookup_def)
  have c: "compileRuleset [(3, Nonterminal 3), (2, Nonterminal 3), (0, Alt []), (1, Alt [])]
     = Inr [(3, MatchRule 3), (2, MatchRule 3), (0, AltP []), (1, AltP [])]"
    by (simp add: compileRuleset_def get.simps newSet_def)
  have p: "createParser (\<lambda>s. False) (Ruleset [(''A'', IdentifierNode ''A'')])
     = Inr ([(3, MatchRule 3), (2, MatchRule 3), (0, AltP []), (1, AltP [])], MatchRule 3)"
    using c by (simp add: createParser_def s)
  have m: "map_of [(3, MatchRule 3), (2, MatchRule 3), (0, AltP []), (1, AltP [])] (3::nat)
      = Some (MatchRule 3)" by simp
  have r: "\<forall>n toks. runParser n \<lparr>callFn = (\<lambda>f args. Inr JNull), iterHost = (\<lambda>n. None)\<rparr>
          [(3, MatchRule 3), (2, MatchRule 3), (0, AltP []), (1, AltP [])] (MatchRule 3) toks = None"
    unfolding runParser_def parse_self_reference[OF m] by simp
  from s c p r show ?thesis by (intro conjI)
qed


section \<open>Properties of the tokenizer\<close>

lemma getInterpolation_Some:
  "lsOuterIndex st < length interps \<Longrightarrow>
   getInterpolation interps st =
     (Some \<lparr>tokType = ''value'', tokValue = interps ! lsOuterIndex st, tokIndex = 0,
            tokOuterIndex = Suc (lsOuterIndex st), tokLength = 0\<rparr>,
      \<lparr>lsIndex = 0, lsOuterIndex = Suc (lsOuterIndex st), lsTokens = lsTokens st\<rparr>)"
  by (cases st) (simp add: getInterpolation_def)

text \<open>
  Claim C8, as the code has it. At the end of a fragment inside an open string, with an
  interpolated value at that position and a fragment after it, the loop goes on at the start
  of the next fragment with the token list as it was (no token is pushed for the value) and
  with the string token changed in its value only, to which the stringified value is
  appended: the token's length, like its type and position, is what it was.
\<close>

theorem quote_interpolation_spliced:
  assumes "nextChar strs st = None"
    and "lsOuterIndex st < length interps"
    and "Suc (lsOuterIndex st) < length strs"
  shows "quoteLoop strs interps toStr q tok st =
           quoteLoop strs interps toStr q
             (tok\<lparr>tokValue := JString (tokText tok @ stringOf toStr (interps ! lsOuterIndex st))\<rparr>)
             \<lparr>lsIndex = 0, lsOuterIndex = Suc (lsOuterIndex st), lsTokens = lsTokens st\<rparr>
       \<and> tokLength (tok\<lparr>tokValue := JString (tokText tok @ stringOf toStr (interps ! lsOuterIndex st))\<rparr>)
           = tokLength tok"
  using assms
  by (simp add: quoteLoop.simps[of strs interps toStr q tok st] getInterpolation_Some
      hasStrings_def appendValue_def)

theorem quote_interpolation_spliced_witness:
  "nextChar [[CHR 0x22] @ ''foo'', ''bar'' @ [CHR 0x22]] \<lparr>lsIndex = 4, lsOuterIndex = 0, lsTokens = []\<rparr> = None
   \<and> quoteLoop [[CHR 0x22] @ ''foo'', ''bar'' @ [CHR 0x22]] [JString ''XY''] (\<lambda>v. []) (CHR 0x22)
        \<lparr>tokType = ''value'', tokValue = JString ''foo'', tokIndex = 0, tokOuterIndex = 0, tokLength = 4\<rparr>
        \<lparr>lsIndex = 4, lsOuterIndex = 0, lsTokens = []\<rparr>
     = quoteLoop [[CHR 0x22] @ ''foo'', ''bar'' @ [CHR 0x22]] [JString ''XY''] (\<lambda>v. []) (CHR 0x22)
        \<lparr>tokType = ''value'', tokValue = JString ''fooXY'', tokIndex = 0, tokOuterIndex = 0, tokLength = 4\<rparr>
        \<lparr>lsIndex = 0, lsOuterIndex = 1, lsTokens = []\<rparr>"
proof -
  let ?strs = "[[CHR 0x22] @ ''foo'', ''bar'' @ [CHR 0x22]]"
  let ?st = "\<lparr>lsIndex = 4, lsOuterIndex = 0, lsTokens = []\<rparr>"
  have a: "nextChar ?strs ?st = None" by (simp add: nextChar_def buffer_def)
  have b: "lsOuterIndex ?st < length [JString ''XY'']" by simp
  have c: "Suc (lsOuterIndex ?st) < length ?strs" by simp
  from quote_interpolation_spliced[OF a b c, of "\<lambda>v. []" "CHR 0x22"
      "\<lparr>tokType = ''value'', tokValue = JString ''foo'', tokIndex = 0, tokOuterIndex = 0, tokLength = 4\<rparr>",
      THEN conjunct1] a
  show ?thesis by (simp add: tokText_def stringOf_def)
qed

text \<open>
  Claim C8, as the spec states it, fails. The string \<open>"foo${x}bar"\<close>, with a value \<open>x\<close> whose
  string has length 2, is one token of length 8, the length that the string \<open>"foobar"\<close> has
  without the value: the length has not grown by 2.
\<close>

theorem quote_interpolation_length_counterexample:
  "tokenize (\<lambda>v. []) (\<lambda>s. JNumber s) (\<lambda>c. False) (\<lambda>c. False) [[CHR 0x22] @ ''foo'', ''bar'' @ [CHR 0x22]] [JString ''XY'']
     = Inr [\<lparr>tokType = ''value'', tokValue = JString ''fooXYbar'', tokIndex = 0, tokOuterIndex = 0,
             tokLength = 8\<rparr>]
   \<and> tokenize (\<lambda>v. []) (\<lambda>s. JNumber s) (\<lambda>c. False) (\<lambda>c. False) [[CHR 0x22] @ ''foobar'' @ [CHR 0x22]] []
     = Inr [\<lparr>tokType = ''value'', tokValue = JString ''foobar'', tokIndex = 0, tokOuterIndex = 0,
             tokLength = 8\<rparr>]
   \<and> length (stringOf (\<lambda>v. []) (JString ''XY'')) = 2"
  by code_simp

text \<open>
  Every state the tokenizer goes through is stamped: the lexer starts with no token, and the
  string, the comment and the main loop each keep the tokens stamped.
\<close>

lemma quoteLoop_stamped:
  "quoteLoop strs interps toStr q tok st = Inr st' \<Longrightarrow> stamped st
    \<Longrightarrow> tokOuterIndex tok \<le> lsOuterIndex st \<Longrightarrow> stamped st'"
proof (induction strs interps toStr q tok st rule: quoteLoop.induct)
  case (1 strs interps toStr q tok st)
  show ?case
  proof (cases "nextChar strs st")
    case None
    let ?it = "fst (getInterpolation interps st)"
    let ?st' = "snd (getInterpolation interps st)"
    let ?tok' = "case ?it of None \<Rightarrow> tok | Some t \<Rightarrow> appendValue tok (stringOf toStr (tokValue t))"
    from "1.prems"(1) None have hs: "hasStrings strs ?st'"
      and r: "quoteLoop strs interps toStr q ?tok' ?st' = Inr st'"
      by (auto simp: quoteLoop.simps[of strs interps toStr q tok st] Let_def
          split: prod.splits if_splits)
    have s: "stamped ?st'" using "1.prems"(2)
      by (auto simp: stamped_def getInterpolation_def)
    have t: "tokOuterIndex ?tok' \<le> lsOuterIndex ?st'" using "1.prems"(3)
      by (auto simp: getInterpolation_def appendValue_def split: option.splits)
    show ?thesis
      by (rule "1.IH"(1)[OF None prod.collapse refl hs r s t])
  next
    case (Some ch)
    from "1.prems"(1) Some obtain g n where qp: "quotePattern q (remaining strs st) = Some (g, n)"
      by (auto simp: quoteLoop.simps[of strs interps toStr q tok st] split: option.splits)
    show ?thesis
    proof (cases "g = 1")
      case True
      let ?tok' = "(appendValue tok (take n (remaining strs st)))\<lparr>tokLength := tokLength tok + n\<rparr>"
      from "1.prems"(1) Some qp True
      have r: "quoteLoop strs interps toStr q ?tok' (advance n st) = Inr st'"
        by (simp add: quoteLoop.simps[of strs interps toStr q tok st])
      have s: "stamped (advance n st)" using "1.prems"(2)
        by (simp add: stamped_def advance_def)
      have t: "tokOuterIndex ?tok' \<le> lsOuterIndex (advance n st)" using "1.prems"(3)
        by (simp add: advance_def appendValue_def)
      show ?thesis
        by (rule "1.IH"(2)[OF Some qp refl True r s t])
    next
      case False
      from "1.prems"(1) Some qp False
      have "st' = pushToken (tok\<lparr>tokLength := tokLength tok + 1\<rparr>) (advance n st)"
        by (simp add: quoteLoop.simps[of strs interps toStr q tok st])
      then show ?thesis using "1.prems"(2,3)
        by (auto simp: stamped_def pushToken_def advance_def)
    qed
  qed
qed

lemma commentLoop_stamped:
  "stamped st \<Longrightarrow> stamped (commentLoop strs interps block st)"
proof (induction strs interps block st rule: commentLoop.induct)
  case (1 strs interps block st)
  show ?case
  proof (cases "nextChar strs st")
    case None
    let ?st' = "snd (getInterpolation interps st)"
    have s: "stamped ?st'" using "1.prems"
      by (auto simp: stamped_def getInterpolation_def)
    show ?thesis
    proof (cases "hasStrings strs ?st'")
      case True
      have "stamped (commentLoop strs interps block ?st')"
        by (rule "1.IH"(1)[OF None prod.collapse True s])
      moreover from None True
      have "commentLoop strs interps block st = commentLoop strs interps block ?st'"
        by (simp add: commentLoop.simps[of strs interps block st] case_prod_beta)
      ultimately show ?thesis by simp
    next
      case False
      with None have "commentLoop strs interps block st = ?st'"
        by (simp add: commentLoop.simps[of strs interps block st] case_prod_beta)
      with s show ?thesis by simp
    qed
  next
    case (Some ch)
    note nc = Some
    show ?thesis
    proof (cases "commentPattern block (remaining strs st)")
      case None
      with nc "1.prems" show ?thesis
        by (simp add: commentLoop.simps[of strs interps block st])
    next
      case (Some gn)
      obtain g n where gn: "gn = (g, n)" by (cases gn)
      have s: "stamped (advance n st)" using "1.prems"
        by (simp add: stamped_def advance_def)
      show ?thesis
      proof (cases "g = 2")
        case True
        with nc Some gn s show ?thesis
          by (simp add: commentLoop.simps[of strs interps block st])
      next
        case False
        have "stamped (commentLoop strs interps block (advance n st))"
          by (rule "1.IH"(2)[OF nc Some[unfolded gn] refl False s])
        moreover from nc Some gn False
        have "commentLoop strs interps block st = commentLoop strs interps block (advance n st)"
          by (simp add: commentLoop.simps[of strs interps block st])
        ultimately show ?thesis by simp
      qed
    qed
  qed
qed

lemma mainLoop_stamped:
  "mainLoop strs interps toStr toNumber idStart idContinue st = Inr st' \<Longrightarrow> stamped st \<Longrightarrow> stamped st'"
proof (induction strs interps toStr toNumber idStart idContinue st rule: mainLoop.induct)
  case (1 strs interps toStr toNumber idStart idContinue st)
  note eq = mainLoop.simps[of strs interps toStr toNumber idStart idContinue st]
  show ?case
  proof (cases "nextChar strs st")
    case None
    let ?st' = "pushInterpolation interps st"
    have s: "stamped ?st'" using "1.prems"(2)
      by (auto simp: stamped_def pushInterpolation_def getInterpolation_def pushToken_def)
    show ?thesis
    proof (cases "hasStrings strs ?st'")
      case True
      with "1.prems"(1) None
      have r: "mainLoop strs interps toStr toNumber idStart idContinue ?st' = Inr st'"
        by (simp add: eq Let_def)
      show ?thesis by (rule "1.IH"(1)[OF None refl True r s])
    next
      case False
      with "1.prems"(1) None have "st' = ?st'" by (simp add: eq Let_def)
      with s show ?thesis by simp
    qed
  next
    case (Some ch)
    show ?thesis
    proof (cases "ch = CHR 0x27 \<or> ch = CHR 0x22")
      case True
      from "1.prems"(1) Some True obtain b where
        q: "quote strs interps toStr ch (advance 1 st) = Inr b"
        and r: "mainLoop strs interps toStr toNumber idStart idContinue b = Inr st'"
        by (auto simp: eq split: sum.splits)
      let ?tok = "\<lparr>tokType = ''value'', tokValue = JString [], tokIndex = lsIndex (advance 1 st) - 1,
            tokOuterIndex = lsOuterIndex (advance 1 st), tokLength = 1\<rparr>"
      from q have ql: "quoteLoop strs interps toStr ch ?tok (advance 1 st) = Inr b"
        by (simp add: quote_def Let_def split: if_splits)
      have a: "stamped (advance 1 st)" using "1.prems"(2)
        by (simp add: stamped_def advance_def)
      have t: "tokOuterIndex ?tok \<le> lsOuterIndex (advance 1 st)" by simp
      have "stamped b" by (rule quoteLoop_stamped[OF ql a t])
      then show ?thesis by (rule "1.IH"(2)[OF Some True q r])
    next
      case False
      from "1.prems"(1) Some False obtain g n where
        mp: "mainPattern idStart idContinue (remaining strs st) = Some (g, n)"
        by (auto simp: eq split: option.splits)
      let ?xa = "take n (remaining strs st)"
      let ?next = "if g = 2 then comment strs interps False (advance n st)
             else if g = 3 then comment strs interps True (advance n st)
                  else if g = 4 \<or> g = 5 \<or> g = 6 \<or> g = 7
                       then pushToken (lexeme ''value'' (toNumber ?xa) st n) (advance n st)
                       else if g = 8
                            then pushToken (lexeme ''identifier'' (JString ?xa) st n) (advance n st)
                            else if g = 9
                                 then pushToken (lexeme ''operator'' (JString ?xa) st n) (advance n st)
                                 else advance n st"
      from "1.prems"(1) Some False mp
      have r: "mainLoop strs interps toStr toNumber idStart idContinue ?next = Inr st'"
        by (simp add: eq Let_def)
      have a: "stamped (advance n st)" using "1.prems"(2)
        by (simp add: stamped_def advance_def)
      have c: "stamped (comment strs interps blk (advance n st))" for blk
        using commentLoop_stamped[OF a] a by (simp add: comment_def)
      have p: "stamped (pushToken (lexeme ty v st n) (advance n st))" for ty v
        using "1.prems"(2) by (auto simp: stamped_def pushToken_def advance_def lexeme_def)
      have s: "stamped ?next" using a c p by simp
      show ?thesis by (rule "1.IH"(3)[OF Some False mp refl refl r s])
    qed
  qed
qed

lemma mainState_stamped:
  "mainState strs interps toStr toNumber idStart idContinue st = Inr st' \<Longrightarrow> stamped st \<Longrightarrow> stamped st'"
  by (auto simp: mainState_def split: if_splits intro: mainLoop_stamped)

lemma tokenize_stamped:
  assumes "tokenize toStr toNumber idStart idContinue strs interps = Inr toks"
  shows "\<exists>st. stamped st \<and> lsTokens st = toks"
proof -
  let ?st0 = "\<lparr>lsIndex = 0, lsOuterIndex = 0, lsTokens = []\<rparr>"
  from assms obtain st where m: "mainState strs interps toStr toNumber idStart idContinue ?st0 = Inr st"
    and t: "lsTokens st = toks"
    by (auto simp: tokenize_def split: sum.splits)
  have "stamped ?st0" by (simp add: stamped_def)
  with m have "stamped st" by (rule mainState_stamped)
  with t show ?thesis by blast
qed

text \<open>
  Claim C9, as the code has it. In the main state at the end of a fragment, with an
  interpolated value at that position, the token pushed has the value as it is, index 0 and
  length 0; its \<^verbatim>\<open>outerIndex\<close> is one more than the index of the fragment that has ended. That is
  the index of the fragment the lexer reads next, the one its further tokens are stamped with;
  it is above the \<^verbatim>\<open>outerIndex\<close> of every token pushed before, the tokens being stamped as
  they are in every run.
\<close>

theorem interpolation_token:
  assumes "nextChar strs st = None"
    and "lsOuterIndex st < length interps"
    and "stamped st"
  shows "\<exists>t st'.
           t = \<lparr>tokType = ''value'', tokValue = interps ! lsOuterIndex st, tokIndex = 0,
                tokOuterIndex = Suc (lsOuterIndex st), tokLength = 0\<rparr>
         \<and> st' = \<lparr>lsIndex = 0, lsOuterIndex = Suc (lsOuterIndex st), lsTokens = lsTokens st @ [t]\<rparr>
         \<and> mainLoop strs interps toStr toNumber idStart idContinue st =
             (if hasStrings strs st' then mainLoop strs interps toStr toNumber idStart idContinue st'
              else Inr st')
         \<and> tokOuterIndex t = lsOuterIndex st'
         \<and> (\<forall>ty v n. tokOuterIndex (lexeme ty v st' n) = tokOuterIndex t)
         \<and> (\<forall>u \<in> set (lsTokens st). tokOuterIndex u < tokOuterIndex t)"
  using assms
  by (auto simp: mainLoop.simps[of strs interps toStr toNumber idStart idContinue st] getInterpolation_Some
      pushInterpolation_def pushToken_def lexeme_def Let_def stamped_def)

theorem interpolation_token_witness:
  "nextChar [''a'', ''b'']
      \<lparr>lsIndex = 1, lsOuterIndex = 0, lsTokens = [\<lparr>tokType = ''identifier'', tokValue = JString ''a'',
          tokIndex = 0, tokOuterIndex = 0, tokLength = 1\<rparr>]\<rparr> = None
   \<and> mainLoop [''a'', ''b''] [JHost 0] (\<lambda>v. []) (\<lambda>s. JNumber s) (\<lambda>c. c = CHR ''a'' \<or> c = CHR ''b'') (\<lambda>c. False)
        \<lparr>lsIndex = 1, lsOuterIndex = 0, lsTokens = [\<lparr>tokType = ''identifier'', tokValue = JString ''a'',
          tokIndex = 0, tokOuterIndex = 0, tokLength = 1\<rparr>]\<rparr>
     = mainLoop [''a'', ''b''] [JHost 0] (\<lambda>v. []) (\<lambda>s. JNumber s) (\<lambda>c. c = CHR ''a'' \<or> c = CHR ''b'') (\<lambda>c. False)
        \<lparr>lsIndex = 0, lsOuterIndex = 1, lsTokens =
          [\<lparr>tokType = ''identifier'', tokValue = JString ''a'', tokIndex = 0, tokOuterIndex = 0, tokLength = 1\<rparr>,
           \<lparr>tokType = ''value'', tokValue = JHost 0, tokIndex = 0, tokOuterIndex = 1, tokLength = 0\<rparr>]\<rparr>"
proof -
  let ?a = "\<lparr>tokType = ''identifier'', tokValue = JString ''a'', tokIndex = 0, tokOuterIndex = 0, tokLength = 1\<rparr>"
  let ?st = "\<lparr>lsIndex = 1, lsOuterIndex = 0, lsTokens = [?a]\<rparr>"
  have a: "nextChar [''a'', ''b''] ?st = None" by (simp add: nextChar_def buffer_def)
  have b: "lsOuterIndex ?st < length [JHost 0]" by simp
  have c: "stamped ?st" by (simp add: stamped_def)
  from interpolation_token[OF a b c, of "\<lambda>v. []" "\<lambda>s. JNumber s" "\<lambda>c. c = CHR ''a'' \<or> c = CHR ''b''" "\<lambda>c. False"] a
  show ?thesis by (auto simp: hasStrings_def)
qed

text \<open>
  Claim C9, as the spec states it, fails. In \<open>a${x}b\<close> the token of the value \<open>x\<close> has the
  segment index 1, and so has the token of \<open>b\<close>, which comes from the fragment after the slot
  (and starts at the same offset 0).
\<close>

theorem interpolation_token_counterexample:
  "tokenize (\<lambda>v. []) (\<lambda>s. JNumber s) (\<lambda>c. c = CHR ''a'' \<or> c = CHR ''b'') (\<lambda>c. False) [''a'', ''b''] [JHost 0]
     = Inr [\<lparr>tokType = ''identifier'', tokValue = JString ''a'', tokIndex = 0, tokOuterIndex = 0,
             tokLength = 1\<rparr>,
            \<lparr>tokType = ''value'', tokValue = JHost 0, tokIndex = 0, tokOuterIndex = 1, tokLength = 0\<rparr>,
            \<lparr>tokType = ''identifier'', tokValue = JString ''b'', tokIndex = 0, tokOuterIndex = 1,
             tokLength = 1\<rparr>]"
  by code_simp


end
